theory Spec2Isabelle
  imports Main "HOL-Library.Word"
begin

unbundle bit_operations_syntax

section \<open>FOLD: the frame codec of \<^verbatim>\<open>fold/core/fractal.py\<close>\<close>

text \<open>
  The codec turns a byte payload into a list of RGB frames and back.  A Python \<^verbatim>\<open>bytes\<close>
  value is a list of 8-bit words, a bit string is a Python \<^verbatim>\<open>str\<close> over the characters
  \<^verbatim>\<open>'0'\<close> and \<^verbatim>\<open>'1'\<close>, and a frame (a numpy array of shape \<^verbatim>\<open>(height, width, 3)\<close> and
  dtype \<^verbatim>\<open>uint8\<close>) is a list of rows of pixels.  Array extents are natural numbers.  An
  exception is a value: every function that can raise returns \<open>exn + 'a\<close>.
\<close>

subsection \<open>Data\<close>

type_synonym byte = "8 word"
type_synonym pixel = "byte \<times> byte \<times> byte"
type_synonym frame = "pixel list list"

datatype exn =
    ValueError string
  | IndexError
  | OSError string
  | ValidationError string
  | FileCorruptionError string
  | DecodingError string "exn option"

record FractalEncoder =
  width :: nat
  height :: nat
  pixels_per_frame :: nat

text \<open>\<^verbatim>\<open>FractalEncoder.__init__\<close>\<close>

definition init :: "nat \<Rightarrow> nat \<Rightarrow> FractalEncoder" where
  "init w h = \<lparr>width = w, height = h, pixels_per_frame = w * h\<rparr>"

subsection \<open>Python built-ins used by the codec\<close>

text \<open>\<^verbatim>\<open>s[i:j]\<close> for \<open>0 \<le> i\<close>, \<open>0 \<le> j\<close>: never raises, clips at the end of the string.\<close>

definition py_slice :: "'a list \<Rightarrow> nat \<Rightarrow> nat \<Rightarrow> 'a list" where
  "py_slice s i j = take (j - i) (drop i s)"

text \<open>\<^verbatim>\<open>range(0, n, step)\<close> as the list of its values; a zero step raises.\<close>

definition range_step :: "nat \<Rightarrow> nat \<Rightarrow> exn + nat list" where
  "range_step n step =
     (if step = 0 then Inl (ValueError ''range() arg 3 must not be zero'')
      else Inr (map (\<lambda>k. k * step) [0..<(n + step - 1) div step]))"

text \<open>\<^verbatim>\<open>s.ljust(n, c)\<close>\<close>

definition ljust :: "nat \<Rightarrow> char \<Rightarrow> string \<Rightarrow> string" where
  "ljust n c s = s @ replicate (n - length s) c"

text \<open>The binary digits of a non-negative integer, most significant first (\<^verbatim>\<open>format(n, 'b')\<close>).\<close>

definition digit :: "nat \<Rightarrow> char" where
  "digit d = (if d = 0 then CHR ''0'' else CHR ''1'')"

function bin :: "nat \<Rightarrow> string" where
  "bin n = (if n < 2 then [digit n] else bin (n div 2) @ [digit (n mod 2)])"
  by pat_completeness auto
termination
  by (relation "measure id") auto

declare bin.simps [simp del]

text \<open>\<^verbatim>\<open>format(n, '0kb')\<close> for \<open>n \<ge> 0\<close>: the binary digits, zero-filled on the left to width \<open>k\<close>
  (longer when the digits do not fit).\<close>

definition format_0b :: "nat \<Rightarrow> nat \<Rightarrow> string" where
  "format_0b k n = replicate (k - length (bin n)) CHR ''0'' @ bin n"

text \<open>
  \<^verbatim>\<open>int(s, 2)\<close> on the strings the codec passes to it, which are slices of a string of
  \<^verbatim>\<open>'0'\<close> and \<^verbatim>\<open>'1'\<close>: the empty string raises \<^verbatim>\<open>ValueError\<close>, a digit string has its
  binary value.  A string with any other character is reported as the same error here;
  no call of the codec passes one (\<open>list_all is_bit\<close> holds of every decoded bit string).
\<close>

definition is_bit :: "char \<Rightarrow> bool" where
  "is_bit c = (c = CHR ''0'' \<or> c = CHR ''1'')"

definition bin_value :: "string \<Rightarrow> nat" where
  "bin_value s = foldl (\<lambda>a c. 2 * a + (if c = CHR ''1'' then 1 else 0)) 0 s"

definition int2 :: "string \<Rightarrow> exn + nat" where
  "int2 s =
     (if s = [] \<or> \<not> list_all is_bit s
      then Inl (ValueError (''invalid literal for int() with base 2: '' @ [CHR 0x27] @ s @ [CHR 0x27]))
      else Inr (bin_value s))"

text \<open>A generator expression consumed left to right: the first exception ends it.\<close>

fun traverse :: "('a \<Rightarrow> exn + 'b) \<Rightarrow> 'a list \<Rightarrow> exn + 'b list" where
  "traverse f [] = Inr []"
| "traverse f (x # xs) =
     (case f x of
        Inl e \<Rightarrow> Inl e
      | Inr y \<Rightarrow> (case traverse f xs of Inl e \<Rightarrow> Inl e | Inr ys \<Rightarrow> Inr (y # ys)))"

text \<open>
  \<^verbatim>\<open>zlib.crc32\<close>, a library function: CRC-32 as in RFC 1952, bit by bit (reflected polynomial
  \<^verbatim>\<open>0xEDB88320\<close>, register preset to all ones, result complemented).
\<close>

definition crc_shift :: "32 word \<Rightarrow> 32 word" where
  "crc_shift c = (if bit c 0 then drop_bit 1 c XOR 0xEDB88320 else drop_bit 1 c)"

definition crc_byte :: "32 word \<Rightarrow> byte \<Rightarrow> 32 word" where
  "crc_byte c b = (crc_shift ^^ 8) (c XOR ucast b)"

definition crc32 :: "byte list \<Rightarrow> 32 word" where
  "crc32 data = foldl crc_byte 0xFFFFFFFF data XOR 0xFFFFFFFF"

subsection \<open>Encode\<close>

text \<open>\<^verbatim>\<open>_prepare_bit_string\<close>\<close>

definition prepare_bit_string :: "byte list \<Rightarrow> string" where
  "prepare_bit_string data =
     (let checksum = unat (crc32 data);
          magic = ''FOLD'';
          len = length data;
          magic_bits = concat (map (\<lambda>c. format_0b 8 (of_char c)) magic);
          length_bits = format_0b 32 len;
          checksum_bits = format_0b 32 checksum;
          data_bits = concat (map (\<lambda>b. format_0b 8 (unat b)) data)
      in magic_bits @ length_bits @ checksum_bits @ data_bits)"

text \<open>
  \<^verbatim>\<open>_bits_to_fractal_frame\<close>.  The two nested loops thread \<^verbatim>\<open>bit_index\<close>; every cell of
  the zero-initialised array is assigned exactly once, so the loops build the rows.
\<close>

definition channel :: "char \<Rightarrow> byte" where
  "channel c = (if c = CHR ''1'' then 255 else 0)"

fun fill_row :: "string \<Rightarrow> nat \<Rightarrow> nat \<Rightarrow> pixel list \<times> nat" where
  "fill_row padded_bits 0 bit_index = ([], bit_index)"
| "fill_row padded_bits (Suc n) bit_index =
     (if bit_index + 2 < length padded_bits
      then (let r = channel (padded_bits ! bit_index);
                g = channel (padded_bits ! (bit_index + 1));
                b = channel (padded_bits ! (bit_index + 2));
                (row, bit_index') = fill_row padded_bits n (bit_index + 3)
            in ((r, g, b) # row, bit_index'))
      else (let (row, bit_index') = fill_row padded_bits n bit_index
            in ((0, 0, 0) # row, bit_index')))"

fun fill_rows :: "string \<Rightarrow> nat \<Rightarrow> nat \<Rightarrow> nat \<Rightarrow> frame" where
  "fill_rows padded_bits w 0 bit_index = []"
| "fill_rows padded_bits w (Suc m) bit_index =
     (let (row, bit_index') = fill_row padded_bits w bit_index
      in row # fill_rows padded_bits w m bit_index')"

definition bits_to_fractal_frame :: "FractalEncoder \<Rightarrow> string \<Rightarrow> frame" where
  "bits_to_fractal_frame self bit_string =
     (let total_bits = pixels_per_frame self * 3;
          padded_bits = ljust total_bits CHR ''0'' bit_string
      in fill_rows padded_bits (width self) (height self) 0)"

text \<open>
  \<^verbatim>\<open>encode_data_to_pixels\<close>, as the list of the frames the generator yields
  (\<^verbatim>\<open>list(encoder.encode_data_to_pixels(data))\<close>); an exception raised while the generator
  runs is the result.
\<close>

definition encode_data_to_pixels :: "FractalEncoder \<Rightarrow> byte list \<Rightarrow> exn + frame list" where
  "encode_data_to_pixels self data =
     (let bit_string = prepare_bit_string data;
          bits_per_frame = pixels_per_frame self * 3
      in case range_step (length bit_string) bits_per_frame of
           Inl e \<Rightarrow> Inl e
         | Inr is \<Rightarrow>
             Inr (map (\<lambda>i. bits_to_fractal_frame self (py_slice bit_string i (i + bits_per_frame))) is))"


subsection \<open>Decode\<close>

text \<open>\<^verbatim>\<open>frame[y, x]\<close>: an index outside the array raises \<^verbatim>\<open>IndexError\<close>.\<close>

definition frame_get :: "frame \<Rightarrow> nat \<Rightarrow> nat \<Rightarrow> exn + pixel" where
  "frame_get frame y x =
     (if y < length frame \<and> x < length (frame ! y) then Inr (frame ! y ! x) else Inl IndexError)"

text \<open>\<^verbatim>\<open>'1' if v >= 128 else '0'\<close>\<close>

definition threshold :: "byte \<Rightarrow> char" where
  "threshold v = (if 128 \<le> v then CHR ''1'' else CHR ''0'')"

text \<open>\<^verbatim>\<open>_fractal_frame_to_bits\<close>: the inner loop over \<open>x\<close>, the outer loop over \<open>y\<close>, both
  appending to \<^verbatim>\<open>bit_string\<close>.\<close>

fun scan_row :: "frame \<Rightarrow> nat \<Rightarrow> nat list \<Rightarrow> string \<Rightarrow> exn + string" where
  "scan_row frame y [] bit_string = Inr bit_string"
| "scan_row frame y (x # xs) bit_string =
     (case frame_get frame y x of
        Inl e \<Rightarrow> Inl e
      | Inr (r, g, b) \<Rightarrow>
          (let r_bit = threshold r; g_bit = threshold g; b_bit = threshold b
           in scan_row frame y xs (bit_string @ [r_bit, g_bit, b_bit])))"

fun scan_rows :: "frame \<Rightarrow> nat \<Rightarrow> nat list \<Rightarrow> string \<Rightarrow> exn + string" where
  "scan_rows frame w [] bit_string = Inr bit_string"
| "scan_rows frame w (y # ys) bit_string =
     (case scan_row frame y [0..<w] bit_string of
        Inl e \<Rightarrow> Inl e
      | Inr bit_string' \<Rightarrow> scan_rows frame w ys bit_string')"

definition fractal_frame_to_bits :: "FractalEncoder \<Rightarrow> frame \<Rightarrow> exn + string" where
  "fractal_frame_to_bits self frame = scan_rows frame (width self) [0..<height self] []"

text \<open>\<^verbatim>\<open>_parse_bit_string\<close>\<close>

definition parse_bit_string :: "string \<Rightarrow> exn + byte list" where
  "parse_bit_string bit_string =
     (let magic_bits = py_slice bit_string 0 32;
          length_bits = py_slice bit_string 32 64;
          checksum_bits = py_slice bit_string 64 96;
          data_bits = drop 96 bit_string
      in case traverse (\<lambda>i. int2 (py_slice magic_bits i (i + 8))) [0, 8, 16, 24] of
           Inl e \<Rightarrow> Inl e
         | Inr codes \<Rightarrow>
             if map char_of codes \<noteq> ''FOLD'' then Inl (ValueError ''Invalid FOLD file format'')
             else (case int2 length_bits of
                     Inl e \<Rightarrow> Inl e
                   | Inr len \<Rightarrow>
                       (let expected_data_bits = len * 8
                        in if length data_bits < expected_data_bits
                           then Inl (ValueError ''Incomplete data'')
                           else (let actual_data_bits = take expected_data_bits data_bits
                                 in case traverse (\<lambda>i. int2 (py_slice actual_data_bits i (i + 8)))
                                           (map (\<lambda>k. k * 8) [0..<(length actual_data_bits + 7) div 8]) of
                                      Inl e \<Rightarrow> Inl e
                                    | Inr values \<Rightarrow>
                                        (let data_bytes = map word_of_nat values;
                                             calculated_checksum = unat (crc32 data_bytes)
                                         in case int2 checksum_bits of
                                              Inl e \<Rightarrow> Inl e
                                            | Inr expected_checksum \<Rightarrow>
                                                if calculated_checksum \<noteq> expected_checksum
                                                then Inl (ValueError ''Data corruption detected - checksum mismatch'')
                                                else Inr data_bytes)))))"

text \<open>\<^verbatim>\<open>decode_pixels_to_data\<close>: the loop over the frames, then the parse.\<close>

fun collect_bits :: "FractalEncoder \<Rightarrow> frame list \<Rightarrow> string \<Rightarrow> exn + string" where
  "collect_bits self [] bit_string = Inr bit_string"
| "collect_bits self (frame # frames) bit_string =
     (case fractal_frame_to_bits self frame of
        Inl e \<Rightarrow> Inl e
      | Inr chunk_bits \<Rightarrow> collect_bits self frames (bit_string @ chunk_bits))"

definition decode_pixels_to_data :: "FractalEncoder \<Rightarrow> frame list \<Rightarrow> exn + byte list" where
  "decode_pixels_to_data self frames =
     (case collect_bits self frames [] of
        Inl e \<Rightarrow> Inl e
      | Inr bit_string \<Rightarrow> parse_bit_string bit_string)"

text \<open>
  \<^verbatim>\<open>_read_video_frames\<close> and \<^verbatim>\<open>retrieve\<close> in \<^verbatim>\<open>fold/core/decoder.py\<close>.  What lies outside
  the repository's code is taken as given: \<open>path_exn\<close> is the exception that
  \<^verbatim>\<open>validate_file_path\<close> or \<^verbatim>\<open>os.path.getsize\<close> raises on the path, if one of them does;
  \<open>isOpened\<close> is the answer of \<^verbatim>\<open>cap.isOpened()\<close>; \<open>images\<close> are the images that
  \<^verbatim>\<open>cap.read()\<close> delivers before it reports that there is no further one, in the channel
  order BGR of OpenCV.  Logging returns.  An exception raised as
  \<^verbatim>\<open>DecodingError(f"<prefix>{str(e)}") from e\<close> is \<open>DecodingError prefix (Some e)\<close>, and
  \<^verbatim>\<open>DecodingError("<message>")\<close> is \<open>DecodingError message None\<close>.
\<close>

record video =
  path_exn :: "exn option"
  isOpened :: bool
  images :: "frame list"

text \<open>\<^verbatim>\<open>cv2.cvtColor(frame, cv2.COLOR_BGR2RGB)\<close>\<close>

definition cvtColor_BGR2RGB :: "frame \<Rightarrow> frame" where
  "cvtColor_BGR2RGB frame = map (map (\<lambda>px. case px of (b, g, r) \<Rightarrow> (r, g, b))) frame"

text \<open>
  \<^verbatim>\<open>_read_video_frames\<close>: the whole body is inside \<^verbatim>\<open>try\<close>, and the handler
  \<^verbatim>\<open>except Exception\<close> catches every exception raised there, also the two that the body
  raises itself.
\<close>

definition read_video_frames :: "video \<Rightarrow> exn + frame list" where
  "read_video_frames cap =
     (case (if \<not> isOpened cap then Inl (DecodingError ''Failed to open video file'' None)
            else (let frames = map cvtColor_BGR2RGB (images cap)
                  in if frames = []
                     then Inl (FileCorruptionError ''Video contains no decodable frames'')
                     else Inr frames)) of
        Inl e \<Rightarrow> Inl (DecodingError ''Failed to read video frames: '' (Some e))
      | Inr frames \<Rightarrow> Inr frames)"

text \<open>
  The \<^verbatim>\<open>try\<close> block of \<^verbatim>\<open>retrieve\<close>: the check for no frames, the decoder built from the
  shape of the first frame, and the inner handler for \<^verbatim>\<open>ValueError\<close>.  (A frame of height 0
  has no row to read a width from; 0 stands for it, and no loop of the decoder reads the
  width then.)
\<close>

definition retrieve_try :: "video \<Rightarrow> exn + byte list" where
  "retrieve_try video_path =
     (case path_exn video_path of
        Some e \<Rightarrow> Inl e
      | None \<Rightarrow>
          (case read_video_frames video_path of
             Inl e \<Rightarrow> Inl e
           | Inr frames \<Rightarrow>
               if frames = [] then Inl (FileCorruptionError ''No frames found in video'')
               else (let h = length (hd frames);
                         w = (if hd frames = [] then 0 else length (hd (hd frames)));
                         decoder = init w h
                     in case decode_pixels_to_data decoder frames of
                          Inl (ValueError e) \<Rightarrow>
                            Inl (FileCorruptionError (''Data corruption detected: '' @ e))
                        | Inl e \<Rightarrow> Inl e
                        | Inr data \<Rightarrow> Inr data)))"

text \<open>
  \<^verbatim>\<open>retrieve\<close>: the two outer handlers.  A \<^verbatim>\<open>FileCorruptionError\<close> is raised again as it is,
  every other exception becomes a \<^verbatim>\<open>DecodingError\<close>.
\<close>

definition retrieve :: "video \<Rightarrow> exn + byte list" where
  "retrieve video_path =
     (case retrieve_try video_path of
        Inl (FileCorruptionError m) \<Rightarrow> Inl (FileCorruptionError m)
      | Inl e \<Rightarrow> Inl (DecodingError ''Failed to decode video: '' (Some e))
      | Inr data \<Rightarrow> Inr data)"

subsection \<open>Notions used to state the properties\<close>

text \<open>The three bits read from a cell, the bits read from a frame in row-major order, and
  a frame of exactly \<open>h\<close> rows of \<open>w\<close> cells.\<close>

definition pixel_bits :: "pixel \<Rightarrow> string" where
  "pixel_bits px = (case px of (r, g, b) \<Rightarrow> [threshold r, threshold g, threshold b])"

definition frame_bits :: "frame \<Rightarrow> string" where
  "frame_bits f = concat (map (\<lambda>row. concat (map pixel_bits row)) f)"

definition shaped :: "nat \<Rightarrow> nat \<Rightarrow> frame \<Rightarrow> bool" where
  "shaped w h f = (length f = h \<and> list_all (\<lambda>row. length row = w) f)"

text \<open>The 32 bits of the ASCII bytes of \<^verbatim>\<open>"FOLD"\<close>, and the bytes of a bit string read eight
  bits at a time, most significant bit first.\<close>

abbreviation FOLD_bits :: string where
  "FOLD_bits \<equiv> ''01000110010011110100110001000100''"

definition bits_to_bytes :: "string \<Rightarrow> byte list" where
  "bits_to_bytes bits =
     map (\<lambda>k. word_of_nat (bin_value (take 8 (drop (k * 8) bits)))) [0..<length bits div 8]"

text \<open>The \<open>k\<close>-bit unsigned big-endian representation of a number: the bit at position \<open>i\<close>
  from the left has weight \<open>2 ^ (k - 1 - i)\<close>.\<close>

definition be_bits :: "nat \<Rightarrow> nat \<Rightarrow> string" where
  "be_bits k v = map (\<lambda>i. if odd (v div 2 ^ (k - 1 - i)) then CHR ''1'' else CHR ''0'') [0..<k]"

text \<open>The bits read from a sequence of frames.\<close>

definition frames_bits :: "frame list \<Rightarrow> string" where
  "frames_bits fs = concat (map frame_bits fs)"

text \<open>Corrupting one channel value of one cell of one frame: channel \<open>c\<close> (0, 1 or 2) of the
  cell in row \<open>y\<close> and column \<open>x\<close> of frame \<open>k\<close> is replaced by \<open>v\<close>.\<close>

definition get_channel :: "nat \<Rightarrow> pixel \<Rightarrow> byte" where
  "get_channel c px = (case px of (r, g, b) \<Rightarrow> if c = 0 then r else if c = 1 then g else b)"

definition set_channel :: "nat \<Rightarrow> byte \<Rightarrow> pixel \<Rightarrow> pixel" where
  "set_channel c v px =
     (case px of (r, g, b) \<Rightarrow> if c = 0 then (v, g, b) else if c = 1 then (r, v, b) else (r, g, v))"

definition corrupt :: "frame list \<Rightarrow> nat \<Rightarrow> nat \<Rightarrow> nat \<Rightarrow> nat \<Rightarrow> byte \<Rightarrow> frame list" where
  "corrupt fs k y x c v =
     fs[k := (fs ! k)[y := (fs ! k ! y)[x := set_channel c v (fs ! k ! y ! x)]]]"

section \<open>Properties\<close>

subsection \<open>Binary formatting and parsing\<close>

lemma bin_value_Nil: "bin_value [] = 0"
  by (simp add: bin_value_def)

lemma bin_value_snoc: "bin_value (s @ [c]) = 2 * bin_value s + (if c = CHR ''1'' then 1 else 0)"
  by (simp add: bin_value_def)

lemma bin_value_zeros: "bin_value (replicate m CHR ''0'') = 0"
proof (induction m)
  case 0
  then show ?case by (simp add: bin_value_Nil)
next
  case (Suc m)
  have "bin_value (replicate (Suc m) CHR ''0'') = bin_value (replicate m CHR ''0'' @ [CHR ''0''])"
    by (simp add: replicate_append_same)
  also have "\<dots> = 0"
    unfolding bin_value_snoc using Suc by simp
  finally show ?case .
qed

lemma bin_value_append: "bin_value (s @ t) = bin_value s * 2 ^ length t + bin_value t"
proof (induction t rule: rev_induct)
  case Nil
  then show ?case by (simp add: bin_value_Nil)
next
  case (snoc c t)
  have "bin_value (s @ t @ [c]) = bin_value ((s @ t) @ [c])" by simp
  also have "\<dots> = 2 * bin_value (s @ t) + (if c = CHR ''1'' then 1 else 0)"
    by (rule bin_value_snoc)
  finally show ?case using snoc by (simp add: bin_value_snoc algebra_simps)
qed

lemma bin_not_Nil: "bin n \<noteq> []"
  by (subst bin.simps) simp

lemma digit_is_bit: "is_bit (digit d)"
  by (simp add: is_bit_def digit_def)

lemma bin_bits: "list_all is_bit (bin n)"
proof (induction n rule: bin.induct)
  case (1 n)
  then show ?case by (subst bin.simps) (simp add: digit_is_bit)
qed

lemma digit_div_mod: "2 * (n div 2) + (if digit (n mod 2) = CHR ''1'' then 1 else 0) = (n::nat)"
proof (cases "n mod 2 = 0")
  case True
  then show ?thesis by (simp add: digit_def) presburger
next
  case False
  then have "n mod 2 = 1" by presburger
  then show ?thesis by (simp add: digit_def) presburger
qed

lemma bin_value_bin: "bin_value (bin n) = n"
proof (induction n rule: bin.induct)
  case (1 n)
  show ?case
  proof (cases "n < 2")
    case True
    then have "n = 0 \<or> n = 1" by arith
    then show ?thesis
      by (subst bin.simps) (auto simp: bin_value_def digit_def)
  next
    case False
    with 1 have "bin_value (bin (n div 2)) = n div 2" by simp
    moreover have "2 * (n div 2) + (if digit (n mod 2) = CHR ''1'' then 1 else 0) = n"
      by (rule digit_div_mod)
    ultimately show ?thesis using False
      by (subst bin.simps) (simp add: bin_value_snoc)
  qed
qed

lemma length_bin: "0 < k \<Longrightarrow> n < 2 ^ k \<Longrightarrow> length (bin n) \<le> k"
proof (induction n arbitrary: k rule: bin.induct)
  case (1 n)
  show ?case
  proof (cases "n < 2")
    case True
    with 1(2) show ?thesis by (subst bin.simps) simp
  next
    case False
    from 1(2) obtain j where k: "k = Suc j" by (cases k) auto
    from False 1(3) k have "0 < j" by (cases j) auto
    moreover from 1(3) k have "n div 2 < 2 ^ j" by auto
    ultimately have "length (bin (n div 2)) \<le> j" using 1(1) False by simp
    with False k show ?thesis by (subst bin.simps) simp
  qed
qed

lemma length_format_0b: "0 < k \<Longrightarrow> n < 2 ^ k \<Longrightarrow> length (format_0b k n) = k"
  using length_bin [of k n] by (simp add: format_0b_def)

lemma replicate_bits: "list_all is_bit (replicate m CHR ''0'')"
  by (induction m) (simp_all add: is_bit_def)

lemma format_0b_bits: "list_all is_bit (format_0b k n)"
  by (simp add: format_0b_def replicate_bits bin_bits)

lemma bin_value_format_0b: "bin_value (format_0b k n) = n"
  by (simp add: format_0b_def bin_value_append bin_value_zeros bin_value_bin)

lemma format_0b_not_Nil: "format_0b k n \<noteq> []"
  by (simp add: format_0b_def bin_not_Nil)

lemma int2_format_0b: "int2 (format_0b k n) = Inr n"
  by (simp add: int2_def format_0b_not_Nil format_0b_bits bin_value_format_0b)

lemma int2_bits: "s \<noteq> [] \<Longrightarrow> list_all is_bit s \<Longrightarrow> int2 s = Inr (bin_value s)"
  by (simp add: int2_def)

subsection \<open>The frames written by Encode\<close>

lemma channel_cases: "channel c = 0 \<or> channel c = 255"
  by (simp add: channel_def)

lemma fill_row_length: "length (fst (fill_row p n bi)) = n"
  by (induction n arbitrary: bi) (simp_all add: Let_def split_beta)

lemma fill_row_values:
  "(r, g, b) \<in> set (fst (fill_row p n bi)) \<Longrightarrow>
     (r = 0 \<or> r = 255) \<and> (g = 0 \<or> g = 255) \<and> (b = 0 \<or> b = 255)"
proof (induction n arbitrary: bi)
  case 0
  then show ?case by simp
next
  case (Suc n)
  show ?case
  proof (cases "bi + 2 < length p")
    case True
    with Suc.prems have "(r, g, b) = (channel (p ! bi), channel (p ! (bi + 1)), channel (p ! (bi + 2)))
        \<or> (r, g, b) \<in> set (fst (fill_row p n (bi + 3)))"
      by (simp add: Let_def split_beta)
    then show ?thesis
      using Suc.IH [of "bi + 3"] channel_cases by auto
  next
    case False
    with Suc.prems have "(r, g, b) = (0, 0, 0) \<or> (r, g, b) \<in> set (fst (fill_row p n bi))"
      by (simp add: Let_def split_beta)
    then show ?thesis using Suc.IH [of bi] by auto
  qed
qed

lemma fill_rows_length: "length (fill_rows p w m bi) = m"
  by (induction m arbitrary: bi) (simp_all add: split_beta)

lemma fill_rows_row:
  "row \<in> set (fill_rows p w m bi) \<Longrightarrow> \<exists>bi'. row = fst (fill_row p w bi')"
  by (induction m arbitrary: bi) (auto simp: split_beta)

lemma frame_values:
  assumes "row \<in> set (bits_to_fractal_frame self bs)" "(r, g, b) \<in> set row"
  shows "(r = 0 \<or> r = 255) \<and> (g = 0 \<or> g = 255) \<and> (b = 0 \<or> b = 255)"
proof -
  from assms(1) obtain p bi where "row = fst (fill_row p (width self) bi)"
    unfolding bits_to_fractal_frame_def Let_def by (blast dest: fill_rows_row)
  with assms(2) show ?thesis by (auto dest: fill_row_values)
qed

lemma frame_shape:
  "length (bits_to_fractal_frame self bs) = height self \<and>
   (\<forall>row \<in> set (bits_to_fractal_frame self bs). length row = width self)"
  unfolding bits_to_fractal_frame_def Let_def
  by (auto simp: fill_rows_length fill_row_length dest: fill_rows_row)

lemma encode_Inr:
  "0 < pixels_per_frame self \<Longrightarrow>
   encode_data_to_pixels self p =
     Inr (map (\<lambda>i. bits_to_fractal_frame self
                 (py_slice (prepare_bit_string p) i (i + pixels_per_frame self * 3)))
            (map (\<lambda>k. k * (pixels_per_frame self * 3))
               [0..<(length (prepare_bit_string p) + pixels_per_frame self * 3 - 1)
                      div (pixels_per_frame self * 3)]))"
  by (simp add: encode_data_to_pixels_def range_step_def Let_def)

text \<open>
  Claim C7.  For every payload and dimensions with \<open>width * height * 3 \<ge> 96\<close>, encoding
  yields frames, each of \<open>height\<close> rows of \<open>width\<close> cells, and every channel value of every
  cell of every frame is exactly 0 or 255.
\<close>

theorem encode_channels_0_or_255:
  assumes "96 \<le> w * h * 3"
  shows "\<exists>fs. encode_data_to_pixels (init w h) p = Inr fs \<and>
     (\<forall>f \<in> set fs. length f = h \<and>
        (\<forall>row \<in> set f. length row = w \<and>
           (\<forall>(r, g, b) \<in> set row.
              (r = 0 \<or> r = 255) \<and> (g = 0 \<or> g = 255) \<and> (b = 0 \<or> b = 255))))"
proof -
  from assms have pos: "0 < pixels_per_frame (init w h)"
    by (cases "w * h = 0") (simp_all add: init_def)
  have wh: "width (init w h) = w" "height (init w h) = h"
    by (simp_all add: init_def)
  show ?thesis
    unfolding encode_Inr [OF pos]
    using frame_shape [of "init w h"] frame_values [of _ "init w h"]
    by (fastforce simp: wh)
qed

theorem encode_channels_0_or_255_witness:
  "(96::nat) \<le> 8 * 4 * 3 \<and>
   (case encode_data_to_pixels (init 8 4) [] of
      Inl e \<Rightarrow> False
    | Inr fs \<Rightarrow>
        list_all (\<lambda>f. length f = 4 \<and>
          list_all (\<lambda>row. length row = 8 \<and>
            list_all (\<lambda>(r, g, b).
              (r = 0 \<or> r = 255) \<and> (g = 0 \<or> g = 255) \<and> (b = 0 \<or> b = 255)) row) f) fs)"
  using encode_channels_0_or_255 [of 8 4 "[]"] by (auto simp: list_all_iff)


subsection \<open>An encoded frame carries its chunk\<close>

lemma threshold_channel: "is_bit c \<Longrightarrow> threshold (channel c) = c"
  by (auto simp: is_bit_def threshold_def channel_def)

lemma pixel_bits_simp: "pixel_bits (r, g, b) = [threshold r, threshold g, threshold b]"
  by (simp add: pixel_bits_def)

lemma take3_drop_Suc:
  "Suc (Suc i) < length p \<Longrightarrow>
   take (Suc (Suc (Suc k))) (drop i p) =
     p ! i # p ! Suc i # p ! Suc (Suc i) # take k (drop (Suc (Suc (Suc i))) p)"
  by (simp add: Cons_nth_drop_Suc [symmetric])

lemma take3_drop:
  "i + 2 < length p \<Longrightarrow>
   take (3 + k) (drop i p) = p ! i # p ! (i + 1) # p ! (i + 2) # take k (drop (i + 3) p)"
  using take3_drop_Suc [of i p k] by (simp add: numeral_3_eq_3)

lemma fill_row_bits:
  "bi + 3 * n \<le> length p \<Longrightarrow> list_all is_bit p \<Longrightarrow>
   concat (map pixel_bits (fst (fill_row p n bi))) = take (3 * n) (drop bi p) \<and>
   snd (fill_row p n bi) = bi + 3 * n"
proof (induction n arbitrary: bi)
  case 0
  then show ?case by simp
next
  case (Suc n)
  from Suc.prems have lt: "bi + 2 < length p" by simp
  from Suc.prems have "(bi + 3) + 3 * n \<le> length p" by simp
  from Suc.IH [OF this Suc.prems(2)]
  have ih: "concat (map pixel_bits (fst (fill_row p n (bi + 3)))) = take (3 * n) (drop (bi + 3) p)"
    "snd (fill_row p n (bi + 3)) = bi + 3 + 3 * n" by simp_all
  from lt Suc.prems(2) have bits: "is_bit (p ! bi)" "is_bit (p ! (bi + 1))" "is_bit (p ! (bi + 2))"
    by (simp_all add: list_all_length)
  have "3 * Suc n = 3 + 3 * n" by simp
  then have "take (3 * Suc n) (drop bi p) =
      p ! bi # p ! (bi + 1) # p ! (bi + 2) # take (3 * n) (drop (bi + 3) p)"
    using take3_drop [OF lt, of "3 * n"] by simp
  with lt ih bits show ?case
    by (simp add: Let_def split_beta pixel_bits_simp threshold_channel)
qed

lemma fill_rows_bits:
  "bi + 3 * (w * m) \<le> length p \<Longrightarrow> list_all is_bit p \<Longrightarrow>
   frame_bits (fill_rows p w m bi) = take (3 * (w * m)) (drop bi p)"
proof (induction m arbitrary: bi)
  case 0
  then show ?case by (simp add: frame_bits_def)
next
  case (Suc m)
  from Suc.prems have r: "bi + 3 * w \<le> length p" by (simp add: algebra_simps)
  note row = fill_row_bits [OF r Suc.prems(2)]
  from Suc.prems have "(bi + 3 * w) + 3 * (w * m) \<le> length p" by (simp add: algebra_simps)
  from Suc.IH [OF this Suc.prems(2)]
  have ih: "frame_bits (fill_rows p w m (bi + 3 * w)) = take (3 * (w * m)) (drop (bi + 3 * w) p)" .
  have "take (3 * (w * Suc m)) (drop bi p) =
        take (3 * w) (drop bi p) @ take (3 * (w * m)) (drop (bi + 3 * w) p)"
    by (simp add: take_add algebra_simps)
  with row ih show ?case
    by (simp add: frame_bits_def split_beta)
qed

lemma ljust_bits: "list_all is_bit s \<Longrightarrow> list_all is_bit (ljust n CHR ''0'' s)"
  by (simp add: ljust_def replicate_bits)

lemma length_ljust: "length s \<le> n \<Longrightarrow> length (ljust n c s) = n"
  by (simp add: ljust_def)

lemma frame_bits_encode:
  assumes "length bs \<le> w * h * 3" "list_all is_bit bs"
  shows "frame_bits (bits_to_fractal_frame (init w h) bs) = ljust (w * h * 3) CHR ''0'' bs"
proof -
  let ?p = "ljust (w * h * 3) CHR ''0'' bs"
  have len: "length ?p = w * h * 3" using assms(1) by (rule length_ljust)
  have "frame_bits (fill_rows ?p w h 0) = take (3 * (w * h)) (drop 0 ?p)"
    by (rule fill_rows_bits) (simp_all add: len ljust_bits assms(2))
  with len show ?thesis
    by (simp add: bits_to_fractal_frame_def init_def Let_def)
qed

subsection \<open>Reading frames of the decoder's shape\<close>

lemma map_nth_fun: "map (\<lambda>i. g (xs ! i)) [0..<length xs] = map g xs"
  by (rule nth_equalityI) simp_all

lemma scan_row_Inr:
  "y < length f \<Longrightarrow> list_all (\<lambda>x. x < length (f ! y)) xs \<Longrightarrow>
   scan_row f y xs bs = Inr (bs @ concat (map (\<lambda>x. pixel_bits (f ! y ! x)) xs))"
proof (induction xs arbitrary: bs)
  case Nil
  then show ?case by simp
next
  case (Cons x xs)
  obtain r g b where px: "f ! y ! x = (r, g, b)" by (cases "f ! y ! x")
  with Cons show ?case
    by (simp add: frame_get_def Let_def pixel_bits_simp)
qed

lemma scan_row_full:
  assumes "y < length f" "length (f ! y) = w"
  shows "scan_row f y [0..<w] bs = Inr (bs @ concat (map pixel_bits (f ! y)))"
proof -
  have "list_all (\<lambda>x. x < length (f ! y)) [0..<w]"
    using assms(2) by (simp add: list_all_iff)
  from scan_row_Inr [OF assms(1) this]
  have "scan_row f y [0..<w] bs = Inr (bs @ concat (map (\<lambda>x. pixel_bits (f ! y ! x)) [0..<w]))" .
  moreover have "map (\<lambda>x. pixel_bits (f ! y ! x)) [0..<w] = map pixel_bits (f ! y)"
    using assms(2) map_nth_fun [of pixel_bits "f ! y"] by simp
  ultimately show ?thesis by simp
qed

lemma scan_rows_Inr:
  "list_all (\<lambda>y. y < length f \<and> length (f ! y) = w) ys \<Longrightarrow>
   scan_rows f w ys bs = Inr (bs @ concat (map (\<lambda>y. concat (map pixel_bits (f ! y))) ys))"
proof (induction ys arbitrary: bs)
  case Nil
  then show ?case by simp
next
  case (Cons y ys)
  then show ?case by (simp add: scan_row_full)
qed

lemma fractal_frame_to_bits_shaped:
  assumes "shaped w h f"
  shows "fractal_frame_to_bits (init w h) f = Inr (frame_bits f)"
proof -
  from assms have len: "length f = h" and rows: "\<forall>row \<in> set f. length row = w"
    by (simp_all add: shaped_def list_all_iff)
  have "list_all (\<lambda>y. y < length f \<and> length (f ! y) = w) [0..<h]"
    using len rows by (simp add: list_all_iff)
  from scan_rows_Inr [OF this, of "[]"]
  have "scan_rows f w [0..<h] [] = Inr (concat (map (\<lambda>y. concat (map pixel_bits (f ! y))) [0..<h]))"
    by simp
  moreover have "map (\<lambda>y. concat (map pixel_bits (f ! y))) [0..<h]
      = map (\<lambda>row. concat (map pixel_bits row)) f"
    using len map_nth_fun [of "\<lambda>row. concat (map pixel_bits row)" f] by simp
  ultimately show ?thesis
    by (simp add: fractal_frame_to_bits_def frame_bits_def init_def)
qed

lemma collect_bits_shaped:
  "list_all (shaped w h) fs \<Longrightarrow>
   collect_bits (init w h) fs bs = Inr (bs @ concat (map frame_bits fs))"
  by (induction fs arbitrary: bs) (simp_all add: fractal_frame_to_bits_shaped)

lemma decode_shaped:
  "list_all (shaped w h) fs \<Longrightarrow>
   decode_pixels_to_data (init w h) fs = parse_bit_string (concat (map frame_bits fs))"
  by (simp add: decode_pixels_to_data_def collect_bits_shaped)

lemma pixel_bits_is_bit: "list_all is_bit (pixel_bits px)"
  by (cases px) (simp add: pixel_bits_simp threshold_def is_bit_def)

lemma frame_bits_is_bit: "list_all is_bit (frame_bits f)"
  using pixel_bits_is_bit by (auto simp: frame_bits_def list_all_iff)

lemma frames_bits_is_bit: "list_all is_bit (concat (map frame_bits fs))"
  using frame_bits_is_bit by (auto simp: list_all_iff)

subsection \<open>Chunks, padding and the frames of Encode\<close>

lemma chunks_full:
  "n * cap \<le> length B \<Longrightarrow>
   concat (map (\<lambda>k. ljust cap c (take cap (drop (k * cap) B))) [0..<n]) = take (n * cap) B"
proof (induction n)
  case 0
  then show ?case by simp
next
  case (Suc n)
  from Suc.prems have le: "n * cap \<le> length B" and full: "cap \<le> length B - n * cap"
    by simp_all
  from full have "ljust cap c (take cap (drop (n * cap) B)) = take cap (drop (n * cap) B)"
    by (simp add: ljust_def)
  moreover have "take (Suc n * cap) B = take (n * cap) B @ take cap (drop (n * cap) B)"
  proof -
    have "Suc n * cap = n * cap + cap" by simp
    then show ?thesis by (simp only: take_add)
  qed
  ultimately show ?case using Suc.IH [OF le] by simp
qed

lemma ceil_div_bounds:
  assumes "0 < cap" "0 < (L::nat)"
  shows "\<exists>m. (L + cap - 1) div cap = Suc m \<and> m * cap < L \<and> L \<le> Suc m * cap"
proof -
  define q where "q = (L + cap - 1) div cap"
  define r where "r = (L + cap - 1) mod cap"
  have eq: "q * cap + r = L + cap - 1" by (simp add: q_def r_def)
  have r: "r < cap" using assms(1) by (simp add: r_def)
  have "q \<noteq> 0"
  proof
    assume "q = 0"
    with eq r assms show False by simp
  qed
  then obtain m where m: "q = Suc m" by (cases q) auto
  with eq have eq': "m * cap + cap + r = L + cap - 1" by simp
  then have "m * cap < L" using assms by linarith
  moreover from eq' r have "L \<le> m * cap + cap" by linarith
  ultimately show ?thesis using m by (auto simp: q_def)
qed

lemma chunks_padded:
  assumes "0 < cap"
  shows "concat (map (\<lambda>k. ljust cap c (take cap (drop (k * cap) B)))
            [0..<(length B + cap - 1) div cap])
         = B @ replicate ((length B + cap - 1) div cap * cap - length B) c"
proof (cases "B = []")
  case True
  with assms show ?thesis by simp
next
  case False
  then have "0 < length B" by simp
  from ceil_div_bounds [OF assms this] obtain m where
    n: "(length B + cap - 1) div cap = Suc m" and lo: "m * cap < length B"
    and hi: "length B \<le> Suc m * cap" by blast
  from lo have "concat (map (\<lambda>k. ljust cap c (take cap (drop (k * cap) B))) [0..<m])
      = take (m * cap) B"
    by (intro chunks_full) simp
  moreover from hi have "take cap (drop (m * cap) B) = drop (m * cap) B" by simp
  moreover from lo hi have "cap - (length B - m * cap) = Suc m * cap - length B" by simp
  ultimately show ?thesis
    unfolding n by (simp add: ljust_def)
qed

lemma py_slice_chunk: "py_slice B i (i + cap) = take cap (drop i B)"
  by (simp add: py_slice_def)

lemma list_all_take_drop: "list_all P xs \<Longrightarrow> list_all P (take n (drop i xs))"
  by (auto simp: list_all_iff dest: in_set_takeD in_set_dropD)

lemma shaped_encode: "shaped w h (bits_to_fractal_frame (init w h) bs)"
  using frame_shape [of "init w h" bs] by (simp add: shaped_def list_all_iff init_def)

lemma encode_frames:
  assumes "0 < w * h" "list_all is_bit (prepare_bit_string p)"
  shows "\<exists>fs. encode_data_to_pixels (init w h) p = Inr fs \<and>
      list_all (shaped w h) fs \<and>
      length fs = (length (prepare_bit_string p) + w * h * 3 - 1) div (w * h * 3) \<and>
      concat (map frame_bits fs) =
        prepare_bit_string p @
        replicate ((length (prepare_bit_string p) + w * h * 3 - 1) div (w * h * 3) * (w * h * 3)
                    - length (prepare_bit_string p)) CHR ''0''"
proof -
  let ?B = "prepare_bit_string p"
  let ?cap = "w * h * 3"
  let ?n = "(length ?B + ?cap - 1) div ?cap"
  let ?fs = "map (\<lambda>i. bits_to_fractal_frame (init w h) (py_slice ?B i (i + ?cap)))
               (map (\<lambda>k. k * ?cap) [0..<?n])"
  from assms(1) have pos: "0 < pixels_per_frame (init w h)" by (simp add: init_def)
  have ppf: "pixels_per_frame (init w h) = w * h" by (simp add: init_def)
  have enc: "encode_data_to_pixels (init w h) p = Inr ?fs"
    using encode_Inr [OF pos, of p] by (simp add: ppf)
  have sh: "list_all (shaped w h) ?fs"
    by (simp add: list_all_iff shaped_encode)
  have fb: "frame_bits (bits_to_fractal_frame (init w h) (py_slice ?B (k * ?cap) (k * ?cap + ?cap)))
      = ljust ?cap CHR ''0'' (take ?cap (drop (k * ?cap) ?B))" for k
    unfolding py_slice_chunk
    by (rule frame_bits_encode) (simp_all add: list_all_take_drop assms(2))
  have "concat (map frame_bits ?fs)
      = concat (map (\<lambda>k. ljust ?cap CHR ''0'' (take ?cap (drop (k * ?cap) ?B))) [0..<?n])"
    by (simp add: comp_def fb)
  also have "\<dots> = ?B @ replicate (?n * ?cap - length ?B) CHR ''0''"
    using assms(1) by (intro chunks_padded) simp
  finally have bits: "concat (map frame_bits ?fs) = ?B @ replicate (?n * ?cap - length ?B) CHR ''0''" .
  from enc sh bits show ?thesis by (intro exI [of _ ?fs]) simp
qed

subsection \<open>The bit stream and its parse\<close>

lemma magic_bits_eq:
  "concat (map (\<lambda>c. format_0b 8 (of_char c)) ''FOLD'') = ''01000110010011110100110001000100''"
  by code_simp

lemma prepare_eq:
  "prepare_bit_string p =
     ''01000110010011110100110001000100'' @ format_0b 32 (length p) @
     format_0b 32 (unat (crc32 p)) @ concat (map (\<lambda>b. format_0b 8 (unat b)) p)"
  unfolding prepare_bit_string_def Let_def magic_bits_eq by simp

lemma magic_parse:
  "traverse (\<lambda>i. int2 (py_slice ''01000110010011110100110001000100'' i (i + 8))) [0, 8, 16, 24]
     = Inr [70, 79, 76, 68]"
  by (simp add: py_slice_def int2_def is_bit_def bin_value_def)

lemma magic_chars: "map char_of [70, 79, 76, 68 :: nat] = ''FOLD''"
  by code_simp

lemma traverse_Inr:
  "list_all (\<lambda>x. f x = Inr (g x)) xs \<Longrightarrow> traverse f xs = Inr (map g xs)"
  by (induction xs) simp_all

lemma bin_value_Cons:
  "bin_value (c # s) = (if c = CHR ''1'' then 1 else 0) * 2 ^ length s + bin_value s"
  using bin_value_append [of "[c]" s] by (simp add: bin_value_def)

lemma bin_value_bound: "bin_value s < 2 ^ length s"
proof (induction s rule: rev_induct)
  case Nil
  then show ?case by (simp add: bin_value_Nil)
next
  case (snoc c s)
  then show ?case by (simp add: bin_value_snoc)
qed

lemma bin_value_inj:
  "length s = length t \<Longrightarrow> list_all is_bit s \<Longrightarrow> list_all is_bit t \<Longrightarrow>
   bin_value s = bin_value t \<Longrightarrow> s = t"
proof (induction s arbitrary: t rule: rev_induct)
  case Nil
  then show ?case by simp
next
  case (snoc c s)
  from snoc.prems(1) obtain d u where t: "t = u @ [d]"
    by (cases t rule: rev_cases) auto
  from snoc.prems t have len: "length s = length u" and bs: "list_all is_bit s"
    and bu: "list_all is_bit u" and c: "is_bit c" and d: "is_bit d"
    by simp_all
  from snoc.prems(4) t
  have eq: "2 * bin_value s + (if c = CHR ''1'' then 1 else 0)
          = 2 * bin_value u + (if d = CHR ''1'' then 1 else (0::nat))"
    by (simp add: bin_value_snoc)
  then have "bin_value s = bin_value u" by (auto split: if_splits)
  with snoc.IH [OF len bs bu] have "s = u" by simp
  moreover from eq \<open>bin_value s = bin_value u\<close> c d have "c = d"
    by (auto simp: is_bit_def split: if_splits)
  ultimately show ?case using t by simp
qed

lemma int2_take_drop:
  "list_all is_bit S \<Longrightarrow> i < length S \<Longrightarrow> 0 < n \<Longrightarrow>
   int2 (take n (drop i S)) = Inr (bin_value (take n (drop i S)))"
  by (rule int2_bits) (simp_all add: list_all_take_drop)

lemma byte_char:
  assumes "list_all is_bit s" "length s = 8"
  shows "char_of (bin_value s) = c \<longleftrightarrow> s = format_0b 8 (of_char c)"
proof
  assume a: "char_of (bin_value s) = c"
  have "bin_value s < 256" using bin_value_bound [of s] assms(2) by simp
  with a have "of_char c = bin_value s" by auto
  then have "bin_value s = bin_value (format_0b 8 (of_char c))"
    by (simp add: bin_value_format_0b)
  moreover have "length (format_0b 8 (of_char c :: nat)) = 8"
    by (rule length_format_0b) (simp_all add: of_char_def)
  ultimately show "s = format_0b 8 (of_char c)"
    using assms by (intro bin_value_inj) (simp_all add: format_0b_bits)
next
  assume "s = format_0b 8 (of_char c)"
  then show "char_of (bin_value s) = c" by (simp add: bin_value_format_0b)
qed

lemma FOLD_bits_parts:
  "FOLD_bits = format_0b 8 (of_char CHR ''F'') @ format_0b 8 (of_char CHR ''O'') @
     format_0b 8 (of_char CHR ''L'') @ format_0b 8 (of_char CHR ''D'')"
  by code_simp

lemma take32_parts:
  "take 32 S = take 8 S @ take 8 (drop 8 S) @ take 8 (drop 16 S) @ take 8 (drop 24 S)"
proof -
  have "take 32 S = take (8 + (8 + (8 + 8))) S" by simp
  also have "\<dots> = take 8 S @ take 8 (drop 8 S) @ take 8 (drop 16 S) @ take 8 (drop 24 S)"
    by (simp only: take_add drop_drop) simp
  finally show ?thesis .
qed

lemma append4_eq:
  "length a = length a' \<Longrightarrow> length b = length b' \<Longrightarrow> length c = length c' \<Longrightarrow>
   (a @ b @ c @ d = a' @ b' @ c' @ d') = (a = a' \<and> b = b' \<and> c = c' \<and> d = d')"
  by simp

lemma length_format_char: "length (format_0b 8 (of_char c :: nat)) = 8"
  by (rule length_format_0b) (simp_all add: of_char_def)

lemma magic_test:
  assumes "list_all is_bit S" "32 \<le> length S"
  shows "map char_of [bin_value (take 8 S), bin_value (take 8 (drop 8 S)),
            bin_value (take 8 (drop 16 S)), bin_value (take 8 (drop 24 S))] = ''FOLD''
         \<longleftrightarrow> take 32 S = FOLD_bits"
proof -
  have b: "list_all is_bit (take 8 (drop i S))" for i
    using assms(1) by (rule list_all_take_drop)
  have b0: "list_all is_bit (take 8 S)" using b [of 0] by simp
  have l: "length (take 8 S) = 8" "length (take 8 (drop 8 S)) = 8"
    "length (take 8 (drop 16 S)) = 8" "length (take 8 (drop 24 S)) = 8"
    using assms(2) by simp_all
  have "take 32 S = FOLD_bits \<longleftrightarrow>
      take 8 S = format_0b 8 (of_char CHR ''F'') \<and>
      take 8 (drop 8 S) = format_0b 8 (of_char CHR ''O'') \<and>
      take 8 (drop 16 S) = format_0b 8 (of_char CHR ''L'') \<and>
      take 8 (drop 24 S) = format_0b 8 (of_char CHR ''D'')"
    unfolding take32_parts [of S] FOLD_bits_parts
    by (rule append4_eq) (simp_all only: l length_format_char)
  also have "\<dots> \<longleftrightarrow>
      char_of (bin_value (take 8 S)) = CHR ''F'' \<and>
      char_of (bin_value (take 8 (drop 8 S))) = CHR ''O'' \<and>
      char_of (bin_value (take 8 (drop 16 S))) = CHR ''L'' \<and>
      char_of (bin_value (take 8 (drop 24 S))) = CHR ''D''"
    by (simp only: byte_char [OF b0 l(1)] byte_char [OF b l(2)] byte_char [OF b l(3)]
        byte_char [OF b l(4)])
  finally show ?thesis by simp
qed

lemma parse_magic_traverse:
  assumes "list_all is_bit S" "32 \<le> length S"
  shows "traverse (\<lambda>i. int2 (py_slice (py_slice S 0 32) i (i + 8))) [0, 8, 16, 24] =
     Inr [bin_value (take 8 S), bin_value (take 8 (drop 8 S)),
          bin_value (take 8 (drop 16 S)), bin_value (take 8 (drop 24 S))]"
proof -
  have i: "int2 (take 8 (drop i S)) = Inr (bin_value (take 8 (drop i S)))" if "i < 32" for i
    using assms that by (intro int2_take_drop) simp_all
  have "list_all (\<lambda>i. int2 (py_slice (py_slice S 0 32) i (i + 8))
          = Inr (bin_value (take 8 (drop i S)))) [0, 8, 16, 24]"
    using i [of 0] i [of 8] i [of 16] i [of 24]
    by (simp add: py_slice_def drop_take)
  from traverse_Inr [OF this] show ?thesis by simp
qed

lemma parse_data_traverse:
  assumes "list_all is_bit D" "length D = L * 8"
  shows "traverse (\<lambda>i. int2 (py_slice D i (i + 8))) (map (\<lambda>k. k * 8) [0..<(length D + 7) div 8])
     = Inr (map (\<lambda>k. bin_value (take 8 (drop (k * 8) D))) [0..<L])"
proof -
  have n: "(length D + 7) div 8 = L" using assms(2) by simp
  have "list_all (\<lambda>i. int2 (py_slice D i (i + 8)) = Inr (bin_value (take 8 (drop i D))))
          (map (\<lambda>k. k * 8) [0..<L])"
    using assms by (auto simp: list_all_iff py_slice_def intro!: int2_take_drop)
  from traverse_Inr [OF this] show ?thesis
    unfolding n by (simp add: comp_def)
qed

lemma parse_cases:
  assumes bits: "list_all is_bit S" and len: "96 \<le> length S"
  shows "parse_bit_string S =
    (if take 32 S \<noteq> FOLD_bits then Inl (ValueError ''Invalid FOLD file format'')
     else if length S - 96 < bin_value (take 32 (drop 32 S)) * 8
       then Inl (ValueError ''Incomplete data'')
     else if unat (crc32 (bits_to_bytes (take (bin_value (take 32 (drop 32 S)) * 8) (drop 96 S))))
               \<noteq> bin_value (take 32 (drop 64 S))
       then Inl (ValueError ''Data corruption detected - checksum mismatch'')
     else Inr (bits_to_bytes (take (bin_value (take 32 (drop 32 S)) * 8) (drop 96 S))))"
proof -
  define L where "L = bin_value (take 32 (drop 32 S))"
  define D where "D = take (L * 8) (drop 96 S)"
  from len have len32: "32 \<le> length S" by simp
  note m = parse_magic_traverse [OF bits len32]
  note t = magic_test [OF bits len32]
  have lb: "int2 (py_slice S 32 64) = Inr L"
    unfolding L_def py_slice_def using bits len by (simp add: int2_take_drop)
  have cb: "int2 (py_slice S 64 96) = Inr (bin_value (take 32 (drop 64 S)))"
    unfolding py_slice_def using bits len by (simp add: int2_take_drop)
  have d: "traverse (\<lambda>i. int2 (py_slice D i (i + 8))) (map (\<lambda>k. k * 8) [0..<(length D + 7) div 8])
      = Inr (map (\<lambda>k. bin_value (take 8 (drop (k * 8) D))) [0..<L])"
    if "\<not> length S - 96 < L * 8"
    using that bits by (intro parse_data_traverse) (simp_all add: D_def list_all_take_drop)
  have bb: "map word_of_nat (map (\<lambda>k. bin_value (take 8 (drop (k * 8) D))) [0..<L])
      = bits_to_bytes D" if "\<not> length S - 96 < L * 8"
    using that by (simp add: bits_to_bytes_def D_def comp_def)
  show ?thesis
    unfolding parse_bit_string_def Let_def m
    using t lb cb d bb
    by (simp add: L_def [symmetric] D_def [symmetric])
qed

lemma bits_to_bytes_Nil: "bits_to_bytes [] = []"
  by (simp add: bits_to_bytes_def)

lemma bits_to_bytes_Cons:
  assumes "length x = 8"
  shows "bits_to_bytes (x @ r) = word_of_nat (bin_value x) # bits_to_bytes r"
proof -
  have n: "length (x @ r) div 8 = Suc (length r div 8)" using assms by simp
  have u: "[0..<Suc (length r div 8)] = 0 # map Suc [0..<length r div 8]"
    by (simp add: upt_conv_Cons map_Suc_upt del: upt_Suc)
  have d: "drop (Suc k * 8) (x @ r) = drop (k * 8) r" for k
    using assms by simp
  show ?thesis
    unfolding bits_to_bytes_def n u using assms d by (simp add: comp_def del: upt_Suc)
qed

lemma length_format_byte: "length (format_0b 8 (unat (b :: byte))) = 8"
proof (rule length_format_0b)
  show "unat b < 2 ^ 8" using unsigned_less [of b] by simp
qed simp

lemma data_bits_length: "length (concat (map (\<lambda>b. format_0b 8 (unat b)) (p :: byte list))) = 8 * length p"
  by (induction p) (simp_all add: length_format_byte)

lemma data_bits_bytes: "bits_to_bytes (concat (map (\<lambda>b. format_0b 8 (unat b)) (p :: byte list))) = p"
  by (induction p) (simp_all add: bits_to_bytes_Nil bits_to_bytes_Cons length_format_byte bin_value_format_0b)

lemma data_bits_is_bit: "list_all is_bit (concat (map (\<lambda>b. format_0b 8 (unat b)) (p :: byte list)))"
  by (induction p) (simp_all add: format_0b_bits)

lemma length_format_crc: "length (format_0b 32 (unat (c :: 32 word))) = 32"
proof (rule length_format_0b)
  show "unat c < 2 ^ 32" using unsigned_less [of c] by simp
qed simp

lemma prepare_bits: "list_all is_bit (prepare_bit_string p)"
  unfolding prepare_eq by (simp add: format_0b_bits data_bits_is_bit is_bit_def)

lemma prepare_length:
  "length p < 2 ^ 32 \<Longrightarrow> length (prepare_bit_string p) = 96 + 8 * length p"
  unfolding prepare_eq by (simp add: length_format_0b length_format_crc data_bits_length)

subsection \<open>Round trip\<close>

lemma parse_prepare_padded:
  assumes L: "length p < 2 ^ 32" and Z: "list_all is_bit Z"
  shows "parse_bit_string (prepare_bit_string p @ Z) = Inr p"
proof -
  let ?Lb = "format_0b 32 (length p)"
  let ?Cb = "format_0b 32 (unat (crc32 p))"
  let ?D = "concat (map (\<lambda>b. format_0b 8 (unat b)) p)"
  let ?S = "FOLD_bits @ ?Lb @ ?Cb @ ?D @ Z"
  have lL: "length ?Lb = 32" using L by (simp add: length_format_0b)
  have lC: "length ?Cb = 32" by (rule length_format_crc)
  have lD: "length ?D = 8 * length p" by (rule data_bits_length)
  have bits: "list_all is_bit ?S"
    using Z by (simp add: format_0b_bits data_bits_is_bit is_bit_def)
  have len: "96 \<le> length ?S" by (simp add: lL lC)
  have m: "take 32 ?S = FOLD_bits" by simp
  have l: "take 32 (drop 32 ?S) = ?Lb" by (simp add: lL)
  have c: "take 32 (drop 64 ?S) = ?Cb" by (simp add: lL lC)
  have d: "drop 96 ?S = ?D @ Z" by (simp add: lL lC)
  have n: "length ?S - 96 = 8 * length p + length Z" by (simp add: lL lC lD)
  have t: "take (length p * 8) (?D @ Z) = ?D" by (simp add: lD)
  have "parse_bit_string ?S = Inr p"
    unfolding parse_cases [OF bits len] m l c d n
    by (simp only: bin_value_format_0b t data_bits_bytes) simp
  then show ?thesis by (simp add: prepare_eq)
qed

lemma roundtrip_any_capacity:
  assumes "0 < w * h" "length p < 2 ^ 32"
  shows "\<exists>fs. encode_data_to_pixels (init w h) p = Inr fs \<and>
     length fs = (96 + 8 * length p + w * h * 3 - 1) div (w * h * 3) \<and>
     decode_pixels_to_data (init w h) fs = Inr p"
proof -
  from encode_frames [OF assms(1) prepare_bits [of p]] obtain fs where
    enc: "encode_data_to_pixels (init w h) p = Inr fs" and sh: "list_all (shaped w h) fs"
    and n: "length fs = (length (prepare_bit_string p) + w * h * 3 - 1) div (w * h * 3)"
    and bits: "concat (map frame_bits fs) = prepare_bit_string p @
        replicate ((length (prepare_bit_string p) + w * h * 3 - 1) div (w * h * 3) * (w * h * 3)
                    - length (prepare_bit_string p)) CHR ''0''"
    by blast
  have "decode_pixels_to_data (init w h) fs = Inr p"
    unfolding decode_shaped [OF sh] bits
    by (rule parse_prepare_padded [OF assms(2)]) (rule replicate_bits)
  with enc n show ?thesis by (simp add: prepare_length [OF assms(2)])
qed

subsection \<open>Claims on the round trip and the number of frames\<close>

lemma encode_zero_capacity:
  "w * h = 0 \<Longrightarrow>
   encode_data_to_pixels (init w h) p = Inl (ValueError ''range() arg 3 must not be zero'')"
  by (simp add: encode_data_to_pixels_def range_step_def init_def Let_def)

lemma ceil_div_char:
  assumes "0 < (c::nat)"
  shows "B \<le> (B + c - 1) div c * c \<and> (B + c - 1) div c * c < B + c"
proof -
  define q where "q = (B + c - 1) div c"
  define r where "r = (B + c - 1) mod c"
  have eq: "q * c + r = B + c - 1" by (simp add: q_def r_def)
  have r: "r < c" using assms by (simp add: r_def)
  from eq r assms have "B \<le> q * c" by linarith
  moreover from eq assms have "q * c < B + c" by linarith
  ultimately show ?thesis by (simp add: q_def)
qed

lemma prepare_empty: "prepare_bit_string [] = FOLD_bits @ replicate 64 CHR ''0''"
proof -
  have "format_0b 32 0 = replicate 32 CHR ''0''" by code_simp
  moreover have "crc32 [] = 0" by (simp add: crc32_def)
  ultimately show ?thesis unfolding prepare_eq by (simp add: replicate_add [symmetric])
qed

lemma one_chunk: "96 \<le> (c::nat) \<Longrightarrow> (96 + c - 1) div c = 1"
  by (rule div_nat_eqI) simp_all

text \<open>
  Claim C1.  For every payload \<open>p\<close> (of fewer than \<open>2\<^sup>3\<^sup>2\<close> bytes, the payloads of the data
  model; the empty payload included) and every width and height with
  \<open>width * height * 3 \<ge> 96\<close>, encoding \<open>p\<close> yields frames and decoding them returns exactly \<open>p\<close>.
\<close>

theorem roundtrip:
  assumes "96 \<le> w * h * 3" "length p < 2 ^ 32"
  shows "\<exists>fs. encode_data_to_pixels (init w h) p = Inr fs \<and>
     decode_pixels_to_data (init w h) fs = Inr p"
proof -
  from assms(1) have "0 < w * h" by (cases "w * h = 0") simp_all
  from roundtrip_any_capacity [OF this assms(2)] show ?thesis by blast
qed

theorem roundtrip_witness:
  "(96::nat) \<le> 8 * 8 * 3 \<and> length [104, 105 :: byte] < 2 ^ 32 \<and>
   (\<exists>fs. encode_data_to_pixels (init 8 8) [104, 105] = Inr fs \<and>
      decode_pixels_to_data (init 8 8) fs = Inr [104, 105]) \<and>
   (96::nat) \<le> 8 * 4 * 3 \<and> length ([] :: byte list) < 2 ^ 32 \<and>
   (\<exists>fs. encode_data_to_pixels (init 8 4) [] = Inr fs \<and>
      decode_pixels_to_data (init 8 4) fs = Inr [])"
  using roundtrip [of 8 8 "[104, 105]"] roundtrip [of 8 4 "[]"] by simp

text \<open>
  Claim C9.  For every payload (of fewer than \<open>2\<^sup>3\<^sup>2\<close> bytes) and dimensions with
  \<open>capacity = width * height * 3 \<ge> 96\<close>, the number \<open>n\<close> of frames is the ceiling of
  \<open>(96 + 8 * len(payload)) / capacity\<close>: it is \<open>(96 + 8 * len + capacity - 1) div capacity\<close>,
  the one \<open>n\<close> with \<open>n * capacity - capacity < 96 + 8 * len \<le> n * capacity\<close>.  The empty payload
  yields exactly one frame, whose bits are the 96 header bits (the magic, a zero length and a
  zero checksum) followed by zero bits up to the capacity.
\<close>

theorem frame_count:
  assumes "96 \<le> w * h * 3" "length p < 2 ^ 32"
  shows "\<exists>fs. encode_data_to_pixels (init w h) p = Inr fs \<and>
     length fs = (96 + 8 * length p + w * h * 3 - 1) div (w * h * 3) \<and>
     96 + 8 * length p \<le> length fs * (w * h * 3) \<and>
     length fs * (w * h * 3) < 96 + 8 * length p + w * h * 3 \<and>
     (p = [] \<longrightarrow> length fs = 1 \<and>
        frame_bits (hd fs) = prepare_bit_string [] @ replicate (w * h * 3 - 96) CHR ''0'' \<and>
        prepare_bit_string [] = FOLD_bits @ replicate 64 CHR ''0'')"
proof -
  let ?cap = "w * h * 3"
  from assms(1) have pos: "0 < w * h" by (cases "w * h = 0") simp_all
  then have cpos: "0 < ?cap" by simp
  from encode_frames [OF pos prepare_bits [of p]] obtain fs where
    enc: "encode_data_to_pixels (init w h) p = Inr fs"
    and n: "length fs = (length (prepare_bit_string p) + ?cap - 1) div ?cap"
    and bits: "concat (map frame_bits fs) = prepare_bit_string p @
        replicate ((length (prepare_bit_string p) + ?cap - 1) div ?cap * ?cap
                    - length (prepare_bit_string p)) CHR ''0''"
    by blast
  from n have n': "length fs = (96 + 8 * length p + ?cap - 1) div ?cap"
    by (simp add: prepare_length [OF assms(2)])
  note c = ceil_div_char [OF cpos, of "96 + 8 * length p"]
  have e: "length fs = 1 \<and>
      frame_bits (hd fs) = prepare_bit_string [] @ replicate (?cap - 96) CHR ''0''" if "p = []"
  proof -
    from that n' one_chunk [OF assms(1)] have one: "length fs = 1" by simp
    then obtain f where fs: "fs = [f]" by (cases fs) auto
    have l: "length (prepare_bit_string p) = 96" using that prepare_length [of p] by simp
    have "(length (prepare_bit_string p) + ?cap - 1) div ?cap = 1"
      unfolding l by (rule one_chunk [OF assms(1)])
    with bits fs one l that show ?thesis by simp
  qed
  from enc n' c e show ?thesis
    by (intro exI [of _ fs]) (simp add: prepare_empty)
qed

theorem frame_count_witness:
  "(96::nat) \<le> 8 * 8 * 3 \<and> length [104, 105 :: byte] < 2 ^ 32 \<and>
   (\<exists>fs. encode_data_to_pixels (init 8 8) [104, 105] = Inr fs \<and> length fs = 1) \<and>
   (96::nat) \<le> 8 * 4 * 3 \<and> length (replicate 100 (0 :: byte)) < 2 ^ 32 \<and>
   (\<exists>fs. encode_data_to_pixels (init 8 4) (replicate 100 0) = Inr fs \<and> length fs = 10) \<and>
   (\<exists>fs. encode_data_to_pixels (init 8 8) [] = Inr fs \<and> length fs = 1 \<and>
      frame_bits (hd fs) = FOLD_bits @ replicate 64 CHR ''0'' @ replicate 96 CHR ''0'')"
  using frame_count [of 8 8 "[104, 105]"] frame_count [of 8 4 "replicate 100 0"]
    frame_count [of 8 8 "[]"]
  by auto

subsection \<open>Capacities below the header size\<close>

text \<open>
  Claim C2, as the code has it.  \<^verbatim>\<open>FractalEncoder\<close> has no check of the capacity, and no
  configuration error exists.  For \<open>0 < width * height * 3 < 96\<close> encoding succeeds: it
  yields \<open>(96 + 8 * len + capacity - 1) div capacity\<close> frames (the header then spans more than
  one frame), and decoding them returns the payload.  Only a capacity of 0 fails, with the
  \<^verbatim>\<open>ValueError\<close> of \<^verbatim>\<open>range\<close> for a zero step, raised when the generator is first advanced.
\<close>

theorem small_capacity_not_rejected:
  "(0 < w * h * 3 \<and> w * h * 3 < 96 \<and> length p < 2 ^ 32 \<longrightarrow>
      (\<exists>fs. encode_data_to_pixels (init w h) p = Inr fs \<and>
         length fs = (96 + 8 * length p + w * h * 3 - 1) div (w * h * 3) \<and>
         decode_pixels_to_data (init w h) fs = Inr p)) \<and>
   (w * h * 3 = 0 \<longrightarrow>
      encode_data_to_pixels (init w h) p = Inl (ValueError ''range() arg 3 must not be zero''))"
proof (intro conjI impI)
  assume "0 < w * h * 3 \<and> w * h * 3 < 96 \<and> length p < 2 ^ 32"
  then have "0 < w * h" "length p < 2 ^ 32" by simp_all
  then show "\<exists>fs. encode_data_to_pixels (init w h) p = Inr fs \<and>
         length fs = (96 + 8 * length p + w * h * 3 - 1) div (w * h * 3) \<and>
         decode_pixels_to_data (init w h) fs = Inr p"
    by (rule roundtrip_any_capacity)
next
  assume "w * h * 3 = 0"
  then have "w * h = 0" by simp
  then show "encode_data_to_pixels (init w h) p = Inl (ValueError ''range() arg 3 must not be zero'')"
    by (rule encode_zero_capacity)
qed

theorem small_capacity_not_rejected_witness:
  "(0::nat) < 4 * 4 * 3 \<and> (4::nat) * 4 * 3 < 96 \<and> length (replicate 1000 (0::byte)) < 2 ^ 32 \<and>
   (\<exists>fs. encode_data_to_pixels (init 4 4) (replicate 1000 0) = Inr fs \<and>
      length fs = 169 \<and>
      decode_pixels_to_data (init 4 4) fs = Inr (replicate 1000 0)) \<and>
   (0::nat) * 8 * 3 = 0 \<and>
   encode_data_to_pixels (init 0 8) [] = Inl (ValueError ''range() arg 3 must not be zero'')"
  using small_capacity_not_rejected [of 4 4 "replicate 1000 0"]
    small_capacity_not_rejected [of 0 8 "[]"]
  by simp

theorem small_capacity_counterexample:
  "(4::nat) * 4 * 3 < 96 \<and>
   (case encode_data_to_pixels (init 4 4) (replicate 1000 0) of
      Inl e \<Rightarrow> False
    | Inr fs \<Rightarrow> length fs = 169 \<and>
        decode_pixels_to_data (init 4 4) fs = Inr (replicate 1000 0))"
proof -
  have "0 < (4::nat) * 4" "length (replicate 1000 (0::byte)) < 2 ^ 32" by simp_all
  from roundtrip_any_capacity [OF this] show ?thesis by auto
qed

subsection \<open>Every frame carries bits of the stream\<close>

lemma chunk_index_bounds:
  assumes "0 < (c::nat)" "k < (B + c - 1) div c"
  shows "k * c < B" and "Suc k < (B + c - 1) div c \<Longrightarrow> Suc k * c \<le> B"
proof -
  define n where "n = (B + c - 1) div c"
  from ceil_div_char [OF assms(1), of B] have hi: "n * c < B + c" by (simp add: n_def)
  from assms(2) have "Suc k \<le> n" by (simp add: n_def)
  then have "Suc k * c \<le> n * c" by (rule mult_le_mono1)
  with hi show "k * c < B" by simp
  assume "Suc k < (B + c - 1) div c"
  then have "Suc (Suc k) \<le> n" by (simp add: n_def)
  then have "Suc (Suc k) * c \<le> n * c" by (rule mult_le_mono1)
  with hi show "Suc k * c \<le> B" by simp
qed

text \<open>
  Claim C10.  Every frame yielded by \<^verbatim>\<open>encode_data_to_pixels\<close> carries at least one bit of the
  bit stream: frame \<open>k\<close> holds the chunk that starts at position \<open>k * capacity\<close>, which lies
  inside the bit stream, padded with zeros to the capacity; every frame but the last holds a
  full chunk.  So with two or more frames (indeed with any), the last frame starts inside the
  bit stream, and removing it removes bits of the stream.
\<close>

theorem every_frame_carries_stream_bits:
  assumes "0 < w * h"
  shows "\<exists>fs. encode_data_to_pixels (init w h) p = Inr fs \<and>
     (\<forall>k < length fs.
        frame_bits (fs ! k) =
          ljust (w * h * 3) CHR ''0'' (take (w * h * 3) (drop (k * (w * h * 3)) (prepare_bit_string p))) \<and>
        k * (w * h * 3) < length (prepare_bit_string p) \<and>
        take (w * h * 3) (drop (k * (w * h * 3)) (prepare_bit_string p)) \<noteq> [] \<and>
        (Suc k < length fs \<longrightarrow> Suc k * (w * h * 3) \<le> length (prepare_bit_string p))) \<and>
     (2 \<le> length fs \<longrightarrow> (length fs - 1) * (w * h * 3) < length (prepare_bit_string p))"
proof -
  let ?B = "prepare_bit_string p"
  let ?cap = "w * h * 3"
  define n where "n = (length ?B + ?cap - 1) div ?cap"
  define fs where "fs = map (\<lambda>i. bits_to_fractal_frame (init w h) (py_slice ?B i (i + ?cap)))
               (map (\<lambda>k. k * ?cap) [0..<n])"
  from assms have pos: "0 < pixels_per_frame (init w h)" by (simp add: init_def)
  from assms have cpos: "0 < ?cap" by simp
  have ppf: "pixels_per_frame (init w h) = w * h" by (simp add: init_def)
  have enc: "encode_data_to_pixels (init w h) p = Inr fs"
    using encode_Inr [OF pos, of p] by (simp add: ppf fs_def n_def)
  have len: "length fs = n" by (simp add: fs_def)
  have fb: "frame_bits (fs ! k) = ljust ?cap CHR ''0'' (take ?cap (drop (k * ?cap) ?B))"
    if "k < n" for k
  proof -
    have "frame_bits (bits_to_fractal_frame (init w h) (take ?cap (drop (k * ?cap) ?B)))
        = ljust ?cap CHR ''0'' (take ?cap (drop (k * ?cap) ?B))"
      by (rule frame_bits_encode) (simp_all add: list_all_take_drop prepare_bits)
    with that show ?thesis by (simp add: fs_def py_slice_chunk)
  qed
  have lo: "k * ?cap < length ?B" if "k < n" for k
    using chunk_index_bounds(1) [OF cpos, of k "length ?B"] that by (simp add: n_def)
  have ne: "take ?cap (drop (k * ?cap) ?B) \<noteq> []" if "k < n" for k
    using lo [OF that] cpos by simp
  have full: "Suc k * ?cap \<le> length ?B" if "Suc k < n" for k
    using chunk_index_bounds(2) [OF cpos, of k "length ?B"] that by (simp add: n_def)
  have last: "(n - 1) * ?cap < length ?B" if "2 \<le> n"
    using lo [of "n - 1"] that by simp
  have "\<forall>k < length fs.
        frame_bits (fs ! k) = ljust ?cap CHR ''0'' (take ?cap (drop (k * ?cap) ?B)) \<and>
        k * ?cap < length ?B \<and>
        take ?cap (drop (k * ?cap) ?B) \<noteq> [] \<and>
        (Suc k < length fs \<longrightarrow> Suc k * ?cap \<le> length ?B)"
    unfolding len using fb lo ne full by blast
  moreover have "2 \<le> length fs \<longrightarrow> (length fs - 1) * ?cap < length ?B"
    unfolding len using last by blast
  ultimately show ?thesis using enc by blast
qed

theorem every_frame_carries_stream_bits_witness:
  "(0::nat) < 4 * 4 \<and>
   (\<exists>fs. encode_data_to_pixels (init 4 4) [104, 105] = Inr fs \<and> length fs = 3 \<and>
      (2::nat) * (4 * 4 * 3) < length (prepare_bit_string [104, 105]))"
proof -
  have l: "length (prepare_bit_string [104, 105]) = 112"
    using prepare_length [of "[104, 105]"] by simp
  from roundtrip_any_capacity [of 4 4 "[104, 105]"] obtain fs where
    fs: "encode_data_to_pixels (init 4 4) [104, 105] = Inr fs" "length fs = 3" by auto
  with every_frame_carries_stream_bits [of 4 4 "[104, 105]"] l show ?thesis by auto
qed

subsection \<open>The layout of the bit stream\<close>

lemma be_bits_Suc:
  "be_bits (Suc k) v = be_bits k (v div 2) @ [if odd v then CHR ''1'' else CHR ''0'']"
proof -
  have "(v div 2) div 2 ^ (k - 1 - i) = v div 2 ^ (k - i)" if "i < k" for i
  proof -
    from that have "k - i = Suc (k - 1 - i)" by simp
    then show ?thesis by (simp add: div_mult2_eq)
  qed
  then show ?thesis by (simp add: be_bits_def)
qed

lemma length_be_bits: "length (be_bits k v) = k"
  by (simp add: be_bits_def)

lemma be_bits_is_bit: "list_all is_bit (be_bits k v)"
  by (auto simp: be_bits_def list_all_iff is_bit_def)

lemma bin_value_be_bits: "bin_value (be_bits k v) = v mod 2 ^ k"
proof (induction k arbitrary: v)
  case 0
  then show ?case by (simp add: be_bits_def bin_value_Nil)
next
  case (Suc k)
  have "bin_value (be_bits (Suc k) v) = 2 * (v div 2 mod 2 ^ k) + (if odd v then 1 else 0)"
    by (simp add: be_bits_Suc bin_value_snoc Suc.IH)
  also have "(if odd v then 1 else 0) = v mod 2"
    by (cases "odd v") (simp_all add: odd_iff_mod_2_eq_one)
  also have "2 * (v div 2 mod 2 ^ k) + v mod 2 = v mod (2 * 2 ^ k)"
    by (rule mod_mult2_eq [symmetric])
  finally show ?case by simp
qed

lemma format_0b_be_bits:
  assumes "0 < k" "v < 2 ^ k"
  shows "format_0b k v = be_bits k v"
proof (rule bin_value_inj)
  show "length (format_0b k v) = length (be_bits k v)"
    using assms by (simp add: length_format_0b length_be_bits)
  show "bin_value (format_0b k v) = bin_value (be_bits k v)"
    using assms(2) by (simp add: bin_value_format_0b bin_value_be_bits)
qed (rule format_0b_bits be_bits_is_bit)+

text \<open>
  Claim C5.  For every payload (of fewer than \<open>2\<^sup>3\<^sup>2\<close> bytes), the bit stream built by
  \<^verbatim>\<open>_prepare_bit_string\<close> is, in order: the 32 bits of the ASCII bytes of \<^verbatim>\<open>"FOLD"\<close>, most
  significant bit first per byte (the string \<open>FOLD_bits\<close>); the 32-bit unsigned big-endian
  representation of the payload length; the 32-bit unsigned representation of the CRC-32 of
  the payload bytes; the bits of the payload bytes, in order, most significant bit first.
\<close>

theorem bit_stream_layout:
  assumes "length p < 2 ^ 32"
  shows "prepare_bit_string (p :: byte list) =
      concat (map (\<lambda>c. be_bits 8 (of_char c)) ''FOLD'') @
      be_bits 32 (length p) @
      be_bits 32 (unat (crc32 p)) @
      concat (map (\<lambda>b. be_bits 8 (unat b)) p) \<and>
    concat (map (\<lambda>c. be_bits 8 (of_char c)) ''FOLD'') = FOLD_bits"
proof -
  have "be_bits 8 (of_char c) = format_0b 8 (of_char c)" for c :: char
    by (rule format_0b_be_bits [symmetric]) (simp_all add: of_char_def)
  then have m: "concat (map (\<lambda>c. be_bits 8 (of_char c)) ''FOLD'') = FOLD_bits"
    using magic_bits_eq by simp
  have l: "format_0b 32 (length p) = be_bits 32 (length p)"
    using assms by (intro format_0b_be_bits) simp_all
  have c: "format_0b 32 (unat (crc32 p)) = be_bits 32 (unat (crc32 p))"
    using unsigned_less [of "crc32 p"] by (intro format_0b_be_bits) simp_all
  have "format_0b 8 (unat b) = be_bits 8 (unat b)" for b :: byte
    using unsigned_less [of b] by (intro format_0b_be_bits) simp_all
  then have d: "map (\<lambda>b. format_0b 8 (unat b)) p = map (\<lambda>b. be_bits 8 (unat b)) p"
    by simp
  show ?thesis unfolding prepare_eq m l c d by simp
qed

theorem bit_stream_layout_witness:
  "length [104, 105 :: byte] < 2 ^ 32 \<and>
   prepare_bit_string [104, 105] =
      concat (map (\<lambda>c. be_bits 8 (of_char c)) ''FOLD'') @
      be_bits 32 (length [104, 105 :: byte]) @
      be_bits 32 (unat (crc32 [104, 105])) @
      concat (map (\<lambda>b. be_bits 8 (unat b)) [104, 105 :: byte]) \<and>
   concat (map (\<lambda>c. be_bits 8 (of_char c)) ''FOLD'') = FOLD_bits"
proof -
  have h: "length [104, 105 :: byte] < 2 ^ 32" by simp
  from h bit_stream_layout [OF h] show ?thesis by blast
qed

subsection \<open>Positions of the bits read by Decode\<close>

lemma length_concat_uniform:
  "list_all (\<lambda>xs. length xs = n) xss \<Longrightarrow> length (concat xss) = length xss * n"
  by (induction xss) simp_all

lemma nth_concat_uniform:
  "list_all (\<lambda>xs. length xs = n) xss \<Longrightarrow> k < length xss \<Longrightarrow> j < n \<Longrightarrow>
   concat xss ! (k * n + j) = xss ! k ! j"
proof (induction xss arbitrary: k)
  case Nil
  then show ?case by simp
next
  case (Cons xs xss)
  show ?case
  proof (cases k)
    case 0
    with Cons.prems show ?thesis by (simp add: nth_append)
  next
    case (Suc k')
    with Cons.prems have "concat xss ! (k' * n + j) = xss ! k' ! j"
      by (intro Cons.IH) simp_all
    moreover from Suc have "k * n + j = length xs + (k' * n + j)"
      using Cons.prems(1) by simp
    ultimately show ?thesis using Suc by (simp only: concat.simps nth_append_length_plus nth_Cons_Suc)
  qed
qed

lemma length_pixel_bits: "length (pixel_bits px) = 3"
  by (cases px) (simp add: pixel_bits_simp)

lemma row_bits_length: "length row = w \<Longrightarrow> length (concat (map pixel_bits row)) = w * 3"
  using length_concat_uniform [of 3 "map pixel_bits row"]
  by (simp add: list_all_iff length_pixel_bits)

lemma row_bits_nth:
  assumes "x < length row" "c < 3"
  shows "concat (map pixel_bits row) ! (x * 3 + c) = pixel_bits (row ! x) ! c"
  using nth_concat_uniform [of 3 "map pixel_bits row" x c] assms
  by (simp add: list_all_iff length_pixel_bits)

lemma frame_bits_length: "shaped w h f \<Longrightarrow> length (frame_bits f) = h * (w * 3)"
  using length_concat_uniform [of "w * 3" "map (\<lambda>row. concat (map pixel_bits row)) f"]
  by (simp add: frame_bits_def shaped_def list_all_iff row_bits_length)

lemma frame_bits_nth:
  assumes "shaped w h f" "y < h" "x < w" "c < 3"
  shows "frame_bits f ! (y * (w * 3) + (x * 3 + c)) = pixel_bits (f ! y ! x) ! c"
proof -
  from assms(1) have len: "length f = h" and rows: "\<forall>row \<in> set f. length row = w"
    by (simp_all add: shaped_def list_all_iff)
  from assms(2) len rows have ry: "length (f ! y) = w" by simp
  have u: "list_all (\<lambda>xs. length xs = w * 3) (map (\<lambda>row. concat (map pixel_bits row)) f)"
    using rows by (simp add: list_all_iff row_bits_length)
  from assms(3,4) have j: "x * 3 + c < w * 3" by simp
  from nth_concat_uniform [OF u _ j, of y] assms(2) len
  have "frame_bits f ! (y * (w * 3) + (x * 3 + c)) = concat (map pixel_bits (f ! y)) ! (x * 3 + c)"
    by (simp add: frame_bits_def)
  also have "\<dots> = pixel_bits (f ! y ! x) ! c"
    using assms(3,4) ry by (intro row_bits_nth) simp_all
  finally show ?thesis .
qed

lemma frames_bits_length:
  "list_all (shaped w h) fs \<Longrightarrow> length (concat (map frame_bits fs)) = length fs * (w * h * 3)"
  using length_concat_uniform [of "h * (w * 3)" "map frame_bits fs"]
  by (simp add: list_all_iff frame_bits_length mult.assoc mult.left_commute)

lemma frames_bits_nth:
  assumes "list_all (shaped w h) fs" "k < length fs" "y < h" "x < w" "c < 3"
  shows "concat (map frame_bits fs) ! (k * (w * h * 3) + (y * w + x) * 3 + c)
       = pixel_bits (fs ! k ! y ! x) ! c"
proof -
  from assms(1,2) have sh: "shaped w h (fs ! k)" by (simp add: list_all_length)
  have u: "list_all (\<lambda>xs. length xs = h * (w * 3)) (map frame_bits fs)"
    using assms(1) by (simp add: list_all_iff frame_bits_length)
  have "x * 3 + c < w * 3" using assms(4,5) by simp
  moreover have "y * (w * 3) + w * 3 \<le> h * (w * 3)"
  proof -
    from assms(3) have "Suc y \<le> h" by simp
    then have "Suc y * (w * 3) \<le> h * (w * 3)" by (rule mult_le_mono1)
    then show ?thesis by simp
  qed
  ultimately have j: "y * (w * 3) + (x * 3 + c) < h * (w * 3)" by linarith
  have idx: "k * (w * h * 3) + (y * w + x) * 3 + c = k * (h * (w * 3)) + (y * (w * 3) + (x * 3 + c))"
    by (simp add: algebra_simps)
  from nth_concat_uniform [OF u _ j, of k] assms(2)
  have "concat (map frame_bits fs) ! (k * (h * (w * 3)) + (y * (w * 3) + (x * 3 + c)))
      = frame_bits (fs ! k) ! (y * (w * 3) + (x * 3 + c))" by simp
  also have "\<dots> = pixel_bits (fs ! k ! y ! x) ! c"
    using sh assms(3-5) by (rule frame_bits_nth)
  finally show ?thesis unfolding idx .
qed

subsection \<open>Decode reads the frames in row-major order\<close>

text \<open>
  Claim C6.  For every sequence of frames of the decoder's dimensions, whatever the channel
  values (any byte, not only 0 and 255), Decode parses the bit string obtained by visiting the
  frames in input order and the cells of each frame in row-major order, three bits per cell:
  cell \<open>(y, x)\<close> of frame \<open>k\<close> gives the bits at positions
  \<open>k * capacity + (y * width + x) * 3 + c\<close> for the channels \<open>c = 0, 1, 2\<close>, and a channel
  value \<open>\<ge> 128\<close> gives \<^verbatim>\<open>'1'\<close>, any smaller value \<^verbatim>\<open>'0'\<close>.
\<close>

theorem decode_bits_row_major_threshold:
  assumes "list_all (shaped w h) fs"
  shows "\<exists>bits. collect_bits (init w h) fs [] = Inr bits \<and>
     decode_pixels_to_data (init w h) fs = parse_bit_string bits \<and>
     length bits = length fs * (w * h * 3) \<and>
     (\<forall>k < length fs. \<forall>y < h. \<forall>x < w.
        case fs ! k ! y ! x of (r, g, b) \<Rightarrow>
          bits ! (k * (w * h * 3) + (y * w + x) * 3) = (if 128 \<le> r then CHR ''1'' else CHR ''0'') \<and>
          bits ! (k * (w * h * 3) + (y * w + x) * 3 + 1) = (if 128 \<le> g then CHR ''1'' else CHR ''0'') \<and>
          bits ! (k * (w * h * 3) + (y * w + x) * 3 + 2) = (if 128 \<le> b then CHR ''1'' else CHR ''0''))"
proof -
  let ?bits = "concat (map frame_bits fs)"
  have c: "collect_bits (init w h) fs [] = Inr ?bits"
    using collect_bits_shaped [OF assms, of "[]"] by simp
  have d: "decode_pixels_to_data (init w h) fs = parse_bit_string ?bits"
    by (rule decode_shaped [OF assms])
  have l: "length ?bits = length fs * (w * h * 3)"
    by (rule frames_bits_length [OF assms])
  have n: "case fs ! k ! y ! x of (r, g, b) \<Rightarrow>
          ?bits ! (k * (w * h * 3) + (y * w + x) * 3) = (if 128 \<le> r then CHR ''1'' else CHR ''0'') \<and>
          ?bits ! (k * (w * h * 3) + (y * w + x) * 3 + 1) = (if 128 \<le> g then CHR ''1'' else CHR ''0'') \<and>
          ?bits ! (k * (w * h * 3) + (y * w + x) * 3 + 2) = (if 128 \<le> b then CHR ''1'' else CHR ''0'')"
    if "k < length fs" "y < h" "x < w" for k y x
  proof -
    obtain r g b where px: "fs ! k ! y ! x = (r, g, b)" by (cases "fs ! k ! y ! x")
    note f = frames_bits_nth [OF assms that]
    from f [of 0] f [of 1] f [of 2] show ?thesis
      by (simp add: px pixel_bits_simp threshold_def)
  qed
  have "\<forall>k < length fs. \<forall>y < h. \<forall>x < w.
        case fs ! k ! y ! x of (r, g, b) \<Rightarrow>
          ?bits ! (k * (w * h * 3) + (y * w + x) * 3) = (if 128 \<le> r then CHR ''1'' else CHR ''0'') \<and>
          ?bits ! (k * (w * h * 3) + (y * w + x) * 3 + 1) = (if 128 \<le> g then CHR ''1'' else CHR ''0'') \<and>
          ?bits ! (k * (w * h * 3) + (y * w + x) * 3 + 2) = (if 128 \<le> b then CHR ''1'' else CHR ''0'')"
    using n by (intro allI impI)
  with c d l show ?thesis by (intro exI [of _ ?bits] conjI)
qed

theorem decode_bits_row_major_threshold_witness:
  "list_all (shaped 2 1) [[[(0, 128, 255), (127, 200, 3)]]] \<and>
   (\<exists>bits. collect_bits (init 2 1) [[[(0, 128, 255), (127, 200, 3)]]] [] = Inr bits \<and>
      length bits = 6 \<and>
      bits ! 0 = CHR ''0'' \<and> bits ! 1 = CHR ''1'' \<and> bits ! 2 = CHR ''1'' \<and>
      bits ! 3 = CHR ''0'' \<and> bits ! 4 = CHR ''1'' \<and> bits ! 5 = CHR ''0'')"
proof -
  let ?F = "[[[(0, 128, 255), (127, 200, 3)]]] :: frame list"
  have h: "list_all (shaped 2 1) ?F" by (simp add: shaped_def)
  from decode_bits_row_major_threshold [OF h] obtain bits where
    c: "collect_bits (init 2 1) ?F [] = Inr bits" and l: "length bits = length ?F * (2 * 1 * 3)"
    and n: "\<forall>k < length ?F. \<forall>y < 1. \<forall>x < 2.
        case ?F ! k ! y ! x of (r, g, b) \<Rightarrow>
          bits ! (k * (2 * 1 * 3) + (y * 2 + x) * 3) = (if 128 \<le> r then CHR ''1'' else CHR ''0'') \<and>
          bits ! (k * (2 * 1 * 3) + (y * 2 + x) * 3 + 1) = (if 128 \<le> g then CHR ''1'' else CHR ''0'') \<and>
          bits ! (k * (2 * 1 * 3) + (y * 2 + x) * 3 + 2) = (if 128 \<le> b then CHR ''1'' else CHR ''0'')"
    by blast
  have "bits ! 0 = CHR ''0'' \<and> bits ! Suc 0 = CHR ''1'' \<and> bits ! Suc (Suc 0) = CHR ''1''"
    using n [rule_format, of 0 0 0] by simp
  then have a: "bits ! 0 = CHR ''0''" "bits ! 1 = CHR ''1''" "bits ! 2 = CHR ''1''"
    by (simp_all add: numeral_2_eq_2)
  have "bits ! 3 = CHR ''0'' \<and> bits ! Suc 3 = CHR ''1'' \<and> bits ! Suc (Suc 3) = CHR ''0''"
    using n [rule_format, of 0 0 1] by simp
  then have b: "bits ! 3 = CHR ''0''" "bits ! 4 = CHR ''1''" "bits ! 5 = CHR ''0''"
    by simp_all
  from l have "length bits = 6" by simp
  with h c a b show ?thesis by blast
qed

subsection \<open>Removing the last frame\<close>

lemma decode_no_frames:
  "decode_pixels_to_data self [] =
     Inl (ValueError (''invalid literal for int() with base 2: '' @ [CHR 0x27, CHR 0x27]))"
  by (simp add: decode_pixels_to_data_def parse_bit_string_def py_slice_def int2_def)

lemma parse_truncated:
  assumes L: "length p < 2 ^ 32" and m: "96 \<le> m" and lt: "m < 96 + 8 * length p"
  shows "parse_bit_string (take m (prepare_bit_string p)) = Inl (ValueError ''Incomplete data'')"
proof -
  let ?Lb = "format_0b 32 (length p)"
  let ?B = "prepare_bit_string p"
  let ?S = "take m ?B"
  have lL: "length ?Lb = 32" using L by (simp add: length_format_0b)
  have B1: "take 32 ?B = FOLD_bits" by (simp add: prepare_eq)
  have B2: "take 32 (drop 32 ?B) = ?Lb" by (simp add: prepare_eq lL)
  have bits: "list_all is_bit ?S"
    using list_all_take_drop [OF prepare_bits, of m 0 p] by simp
  have len: "length ?S = m"
    using lt prepare_length [OF L] by simp
  from len m have len96: "96 \<le> length ?S" by simp
  have a: "take 32 ?S = FOLD_bits"
    using m B1 by (simp add: min_def)
  have "take 32 (drop 32 ?S) = take 32 (drop 32 ?B)"
    using m by (simp add: drop_take min_def)
  with B2 have b: "take 32 (drop 32 ?S) = ?Lb" by simp
  have cond: "length ?S - 96 < bin_value (take 32 (drop 32 ?S)) * 8"
    unfolding b len bin_value_format_0b using lt m by simp
  show ?thesis
    by (simp only: parse_cases [OF bits len96] a cond simp_thms if_True if_False)
qed

lemma butlast_frames_bits:
  assumes pos: "0 < w * h" and enc: "encode_data_to_pixels (init w h) p = Inr fs"
    and two: "2 \<le> length fs"
  shows "list_all (shaped w h) (butlast fs) \<and>
     concat (map frame_bits (butlast fs)) =
       take ((length fs - 1) * (w * h * 3)) (prepare_bit_string p) \<and>
     (length fs - 1) * (w * h * 3) < length (prepare_bit_string p)"
proof -
  let ?B = "prepare_bit_string p"
  let ?cap = "w * h * 3"
  define n where "n = (length ?B + ?cap - 1) div ?cap"
  let ?F = "\<lambda>i. bits_to_fractal_frame (init w h) (py_slice ?B i (i + ?cap))"
  from pos have ppos: "0 < pixels_per_frame (init w h)" by (simp add: init_def)
  from pos have cpos: "0 < ?cap" by simp
  have ppf: "pixels_per_frame (init w h) = w * h" by (simp add: init_def)
  from enc encode_Inr [OF ppos, of p]
  have fs: "fs = map ?F (map (\<lambda>k. k * ?cap) [0..<n])" by (simp add: ppf n_def)
  then have len: "length fs = n" by simp
  with two obtain m where n: "n = Suc m" by (cases n) auto
  have bl: "butlast fs = map ?F (map (\<lambda>k. k * ?cap) [0..<m])"
    unfolding fs n by (simp add: map_butlast [symmetric])
  have sh: "list_all (shaped w h) (butlast fs)"
    unfolding bl by (simp add: list_all_iff shaped_encode)
  have lo: "m * ?cap < length ?B"
    using chunk_index_bounds(1) [OF cpos, of m "length ?B"] n by (simp add: n_def)
  have fb: "frame_bits (?F (k * ?cap)) = ljust ?cap CHR ''0'' (take ?cap (drop (k * ?cap) ?B))" for k
    unfolding py_slice_chunk
    by (rule frame_bits_encode) (simp_all add: list_all_take_drop prepare_bits)
  have "concat (map frame_bits (butlast fs))
      = concat (map (\<lambda>k. ljust ?cap CHR ''0'' (take ?cap (drop (k * ?cap) ?B))) [0..<m])"
    unfolding bl by (simp add: comp_def fb)
  also have "\<dots> = take (m * ?cap) ?B"
    using lo by (intro chunks_full) simp
  finally show ?thesis using sh lo len n by simp
qed

text \<open>
  Claim C8, as the code has it.  For every payload (of fewer than \<open>2\<^sup>3\<^sup>2\<close> bytes) and
  dimensions with \<open>width * height * 3 \<ge> 96\<close>: when Encode yields two or more frames, the last
  frame starts at a payload bit of the stream (at or after position 96, and before the end
  of the stream), and Decode of all but the last frame fails with the truncation error
  (\<^verbatim>\<open>ValueError("Incomplete data")\<close>).  When Encode yields a single frame, removing it
  leaves no frames, and Decode fails with the \<^verbatim>\<open>ValueError\<close> of \<^verbatim>\<open>int('', 2)\<close>, which is not
  the truncation error.  In neither case does Decode succeed.
\<close>

theorem last_frame_removed:
  assumes "96 \<le> w * h * 3" "length p < 2 ^ 32"
  shows "\<exists>fs. encode_data_to_pixels (init w h) p = Inr fs \<and> fs \<noteq> [] \<and>
     (2 \<le> length fs \<longrightarrow>
        96 \<le> (length fs - 1) * (w * h * 3) \<and>
        (length fs - 1) * (w * h * 3) < 96 + 8 * length p \<and>
        decode_pixels_to_data (init w h) (butlast fs) = Inl (ValueError ''Incomplete data'')) \<and>
     (length fs = 1 \<longrightarrow>
        decode_pixels_to_data (init w h) (butlast fs) =
          Inl (ValueError (''invalid literal for int() with base 2: '' @ [CHR 0x27, CHR 0x27]))) \<and>
     (\<forall>d. decode_pixels_to_data (init w h) (butlast fs) \<noteq> Inr d)"
proof -
  let ?cap = "w * h * 3"
  from assms(1) have pos: "0 < w * h" by (cases "w * h = 0") simp_all
  from roundtrip_any_capacity [OF pos assms(2)] obtain fs where
    enc: "encode_data_to_pixels (init w h) p = Inr fs"
    and n: "length fs = (96 + 8 * length p + ?cap - 1) div ?cap" by blast
  from pos have cpos: "0 < ?cap" by simp
  from ceil_div_bounds [OF cpos, of "96 + 8 * length p"] n have ne: "fs \<noteq> []" by auto
  have two: "96 \<le> (length fs - 1) * ?cap \<and> (length fs - 1) * ?cap < 96 + 8 * length p \<and>
      decode_pixels_to_data (init w h) (butlast fs) = Inl (ValueError ''Incomplete data'')"
    if "2 \<le> length fs"
  proof -
    from butlast_frames_bits [OF pos enc that]
    have sh: "list_all (shaped w h) (butlast fs)"
      and bits: "concat (map frame_bits (butlast fs)) =
         take ((length fs - 1) * ?cap) (prepare_bit_string p)"
      and lt: "(length fs - 1) * ?cap < length (prepare_bit_string p)" by simp_all
    from that have "1 \<le> length fs - 1" by simp
    then have "1 * ?cap \<le> (length fs - 1) * ?cap" by (rule mult_le_mono1)
    then have "?cap \<le> (length fs - 1) * ?cap" by (simp only: mult_1)
    with assms(1) have ge: "96 \<le> (length fs - 1) * ?cap" by (rule order_trans)
    from lt have lt': "(length fs - 1) * ?cap < 96 + 8 * length p"
      by (simp add: prepare_length [OF assms(2)])
    have "decode_pixels_to_data (init w h) (butlast fs) = Inl (ValueError ''Incomplete data'')"
      unfolding decode_shaped [OF sh] bits
      by (rule parse_truncated [OF assms(2) ge lt'])
    with ge lt' show ?thesis by (simp only: simp_thms)
  qed
  have one: "decode_pixels_to_data (init w h) (butlast fs) =
      Inl (ValueError (''invalid literal for int() with base 2: '' @ [CHR 0x27, CHR 0x27]))"
    if "length fs = 1"
  proof -
    from that have "butlast fs = []" by (cases fs) auto
    then show ?thesis by (simp only: decode_no_frames)
  qed
  have never: "decode_pixels_to_data (init w h) (butlast fs) \<noteq> Inr d" for d
  proof (cases "2 \<le> length fs")
    case True
    with two show ?thesis by simp
  next
    case False
    from ne have "1 \<le> length fs" by (cases fs) simp_all
    with False have "length fs = 1" by linarith
    with one show ?thesis by simp
  qed
  from enc ne two one never show ?thesis by blast
qed

theorem last_frame_removed_witness:
  "(96::nat) \<le> 8 * 4 * 3 \<and> length (replicate 100 (0::byte)) < 2 ^ 32 \<and>
   (\<exists>fs. encode_data_to_pixels (init 8 4) (replicate 100 0) = Inr fs \<and> length fs = 10 \<and>
      decode_pixels_to_data (init 8 4) (butlast fs) = Inl (ValueError ''Incomplete data'')) \<and>
   (96::nat) \<le> 8 * 8 * 3 \<and> length [104, 105 :: byte] < 2 ^ 32 \<and>
   (\<exists>fs. encode_data_to_pixels (init 8 8) [104, 105] = Inr fs \<and> length fs = 1 \<and>
      decode_pixels_to_data (init 8 8) (butlast fs) =
        Inl (ValueError (''invalid literal for int() with base 2: '' @ [CHR 0x27, CHR 0x27])))"
proof -
  from roundtrip_any_capacity [of 8 4 "replicate 100 0"] obtain fs where
    fs: "encode_data_to_pixels (init 8 4) (replicate 100 0) = Inr fs" "length fs = 10" by auto
  from roundtrip_any_capacity [of 8 8 "[104, 105]"] obtain gs where
    gs: "encode_data_to_pixels (init 8 8) [104, 105] = Inr gs" "length gs = 1" by auto
  from fs last_frame_removed [of 8 4 "replicate 100 0"]
  have a: "decode_pixels_to_data (init 8 4) (butlast fs) = Inl (ValueError ''Incomplete data'')"
    by auto
  from gs last_frame_removed [of 8 8 "[104, 105]"]
  have b: "decode_pixels_to_data (init 8 8) (butlast gs) =
        Inl (ValueError (''invalid literal for int() with base 2: '' @ [CHR 0x27, CHR 0x27]))"
    by auto
  from fs gs a b show ?thesis by auto
qed

theorem last_frame_removed_counterexample:
  "(96::nat) \<le> 8 * 8 * 3 \<and>
   (case encode_data_to_pixels (init 8 8) [104, 105] of
      Inl e \<Rightarrow> False
    | Inr fs \<Rightarrow>
        length fs = 1 \<and>
        96 < length (prepare_bit_string [104, 105]) \<and>
        decode_pixels_to_data (init 8 8) (butlast fs) \<noteq> Inl (ValueError ''Incomplete data'') \<and>
        decode_pixels_to_data (init 8 8) (butlast fs) =
          Inl (ValueError (''invalid literal for int() with base 2: '' @ [CHR 0x27, CHR 0x27])))"
proof -
  from roundtrip_any_capacity [of 8 8 "[104, 105]"] obtain gs where
    gs: "encode_data_to_pixels (init 8 8) [104, 105] = Inr gs" "length gs = 1" by auto
  then have "butlast gs = []" by (cases gs) auto
  moreover have "length (prepare_bit_string [104, 105]) = 112"
    using prepare_length [of "[104, 105]"] by simp
  ultimately show ?thesis using gs by (simp add: decode_no_frames)
qed

subsection \<open>The failures of Decode\<close>

lemma decode_cases:
  assumes "list_all (shaped w h) fs" "96 \<le> length (frames_bits fs)"
  shows "decode_pixels_to_data (init w h) fs =
    (if take 32 (frames_bits fs) \<noteq> FOLD_bits then Inl (ValueError ''Invalid FOLD file format'')
     else if length (frames_bits fs) - 96 < bin_value (take 32 (drop 32 (frames_bits fs))) * 8
       then Inl (ValueError ''Incomplete data'')
     else if unat (crc32 (bits_to_bytes
                 (take (bin_value (take 32 (drop 32 (frames_bits fs))) * 8) (drop 96 (frames_bits fs)))))
               \<noteq> bin_value (take 32 (drop 64 (frames_bits fs)))
       then Inl (ValueError ''Data corruption detected - checksum mismatch'')
     else Inr (bits_to_bytes
                 (take (bin_value (take 32 (drop 32 (frames_bits fs))) * 8) (drop 96 (frames_bits fs)))))"
proof -
  have b: "list_all is_bit (frames_bits fs)"
    unfolding frames_bits_def by (rule frames_bits_is_bit)
  show ?thesis
    unfolding decode_shaped [OF assms(1)] frames_bits_def [symmetric]
    by (rule parse_cases [OF b assms(2)])
qed

lemma messages_distinct:
  "distinct [''invalid literal for int() with base 2: '' @ [CHR 0x27, CHR 0x27],
     ''Invalid FOLD file format'', ''Incomplete data'',
     ''Data corruption detected - checksum mismatch'']"
  by simp

lemma one_frame_bits:
  assumes "length bs = 96" "list_all is_bit bs"
  shows "list_all (shaped 8 4) [bits_to_fractal_frame (init 8 4) bs]"
    and "frames_bits [bits_to_fractal_frame (init 8 4) bs] = bs"
proof -
  show "list_all (shaped 8 4) [bits_to_fractal_frame (init 8 4) bs]"
    by (simp add: shaped_encode)
  have "frame_bits (bits_to_fractal_frame (init 8 4) bs) = ljust (8 * 4 * 3) CHR ''0'' bs"
    by (rule frame_bits_encode) (simp_all add: assms)
  then show "frames_bits [bits_to_fractal_frame (init 8 4) bs] = bs"
    using assms(1) by (simp add: frames_bits_def ljust_def)
qed

lemma bin_value_one: "bin_value (replicate 31 CHR ''0'' @ ''1'') = 1"
  by (simp add: bin_value_append bin_value_zeros) (simp add: bin_value_def)

lemma zeros_not_FOLD: "replicate 32 CHR ''0'' \<noteq> FOLD_bits"
proof
  assume "replicate 32 CHR ''0'' = FOLD_bits"
  then have "replicate 32 CHR ''0'' ! 1 = FOLD_bits ! 1" by simp
  then show False by simp
qed

lemma bad_magic_frame:
  "decode_pixels_to_data (init 8 4) [bits_to_fractal_frame (init 8 4) (replicate 96 CHR ''0'')]
     = Inl (ValueError ''Invalid FOLD file format'')"
proof -
  let ?bs = "replicate 96 CHR ''0''"
  have l: "length ?bs = 96" and b: "list_all is_bit ?bs" by (simp_all add: replicate_bits)
  note f = one_frame_bits [OF l b]
  have "take 32 ?bs \<noteq> FOLD_bits" using zeros_not_FOLD by simp
  then show ?thesis
    unfolding decode_cases [OF f(1), unfolded f(2), OF eq_refl [OF l [symmetric]]]
    by (simp only: if_True if_False simp_thms)
qed

lemma truncated_frame:
  "decode_pixels_to_data (init 8 4)
     [bits_to_fractal_frame (init 8 4)
        (FOLD_bits @ (replicate 31 CHR ''0'' @ ''1'') @ replicate 32 CHR ''0'')]
     = Inl (ValueError ''Incomplete data'')"
proof -
  let ?bs = "FOLD_bits @ (replicate 31 CHR ''0'' @ ''1'') @ replicate 32 CHR ''0''"
  have l: "length ?bs = 96" by simp
  have b: "list_all is_bit ?bs" by (simp add: replicate_bits is_bit_def)
  note f = one_frame_bits [OF l b]
  have m: "take 32 ?bs = FOLD_bits" by simp
  have n: "take 32 (drop 32 ?bs) = replicate 31 CHR ''0'' @ ''1''" by simp
  show ?thesis
    unfolding decode_cases [OF f(1), unfolded f(2), OF eq_refl [OF l [symmetric]]] m n l bin_value_one
    by simp
qed

lemma bad_checksum_frame:
  "decode_pixels_to_data (init 8 4)
     [bits_to_fractal_frame (init 8 4)
        (FOLD_bits @ replicate 32 CHR ''0'' @ (replicate 31 CHR ''0'' @ ''1''))]
     = Inl (ValueError ''Data corruption detected - checksum mismatch'')"
proof -
  let ?bs = "FOLD_bits @ replicate 32 CHR ''0'' @ (replicate 31 CHR ''0'' @ ''1'')"
  have l: "length ?bs = 96" by simp
  have b: "list_all is_bit ?bs" by (simp add: replicate_bits is_bit_def)
  note f = one_frame_bits [OF l b]
  have m: "take 32 ?bs = FOLD_bits" by simp
  have n: "take 32 (drop 32 ?bs) = replicate 32 CHR ''0''" by simp
  have c: "take 32 (drop 64 ?bs) = replicate 31 CHR ''0'' @ ''1''" by simp
  have z: "crc32 [] = 0" by (simp add: crc32_def)
  show ?thesis
    unfolding decode_cases [OF f(1), unfolded f(2), OF eq_refl [OF l [symmetric]]] m n c l
      bin_value_one bin_value_zeros
    by (simp add: bits_to_bytes_Nil z)
qed

lemma read_video_frames_nonempty: "read_video_frames v \<noteq> Inr []"
  by (simp add: read_video_frames_def Let_def)

lemma read_video_frames_opened:
  assumes "isOpened v" "images v \<noteq> []"
  shows "read_video_frames v = Inr (map cvtColor_BGR2RGB (images v))"
  using assms by (simp add: read_video_frames_def Let_def)

lemma cvtColor_twice: "cvtColor_BGR2RGB (cvtColor_BGR2RGB f) = f"
proof -
  have "(\<lambda>px. case px of (b, g, r) \<Rightarrow> (r, g, b)) \<circ> (\<lambda>px. case px of (b, g, r) \<Rightarrow> (r, g, b))
      = (id :: pixel \<Rightarrow> pixel)"
    by (rule ext) (simp split: prod.splits)
  then show ?thesis by (simp add: cvtColor_BGR2RGB_def)
qed

lemma retrieve_try_shaped:
  assumes "path_exn v = None" "read_video_frames v = Inr fs"
    and "list_all (shaped w h) fs" "0 < h"
  shows "retrieve_try v =
     (case decode_pixels_to_data (init w h) fs of
        Inl (ValueError e) \<Rightarrow> Inl (FileCorruptionError (''Data corruption detected: '' @ e))
      | Inl e \<Rightarrow> Inl e
      | Inr data \<Rightarrow> Inr data)"
proof -
  from assms(2) read_video_frames_nonempty [of v] have "fs \<noteq> []" by auto
  then obtain f gs where fs: "fs = f # gs" by (cases fs) auto
  with assms(3) have "shaped w h f" by simp
  then have len: "length f = h" and rows: "\<forall>row \<in> set f. length row = w"
    by (simp_all add: shaped_def list_all_iff)
  from len assms(4) obtain r rs where f: "f = r # rs" by (cases f) auto
  with rows have "length r = w" by simp
  with fs f len assms(1,2) show ?thesis
    by (simp add: retrieve_try_def Let_def)
qed

lemma retrieve_wraps:
  assumes "path_exn v = None" "read_video_frames v = Inr fs"
    and "list_all (shaped w h) fs" "96 \<le> length (frames_bits fs)"
    and "decode_pixels_to_data (init w h) fs = Inl (ValueError e)"
  shows "retrieve v = Inl (FileCorruptionError (''Data corruption detected: '' @ e))"
proof -
  from assms(4) frames_bits_length [OF assms(3)]
  have "96 \<le> length fs * (w * h * 3)" by (simp add: frames_bits_def)
  then have "0 < h" by (auto intro: Nat.gr0I)
  from retrieve_try_shaped [OF assms(1,2,3) this] assms(5)
  have "retrieve_try v = Inl (FileCorruptionError (''Data corruption detected: '' @ e))" by simp
  then show ?thesis by (simp add: retrieve_def)
qed

text \<open>
  The three failures of the parse reach the caller as three different outcomes, each with
  its own message.  Given frames of the decoder's shape with at least 96 bits: a bad magic
  marker raises \<^verbatim>\<open>ValueError("Invalid FOLD file format")\<close>; a declared length that exceeds
  the bits available raises \<^verbatim>\<open>ValueError("Incomplete data")\<close>; a checksum mismatch raises
  \<^verbatim>\<open>ValueError("Data corruption detected - checksum mismatch")\<close>.  When the frames were
  read from a video, \<^verbatim>\<open>retrieve\<close> reports each as \<^verbatim>\<open>FileCorruptionError\<close> with the codec's
  message kept, not as \<^verbatim>\<open>DecodingError\<close>.
\<close>

lemma parse_failures_by_message:
  assumes "list_all (shaped w h) fs" "96 \<le> length (frames_bits fs)"
  shows
   "(take 32 (frames_bits fs) \<noteq> FOLD_bits \<longrightarrow>
       decode_pixels_to_data (init w h) fs = Inl (ValueError ''Invalid FOLD file format'')) \<and>
    (take 32 (frames_bits fs) = FOLD_bits \<and>
     length (frames_bits fs) - 96 < bin_value (take 32 (drop 32 (frames_bits fs))) * 8 \<longrightarrow>
       decode_pixels_to_data (init w h) fs = Inl (ValueError ''Incomplete data'')) \<and>
    (take 32 (frames_bits fs) = FOLD_bits \<and>
     bin_value (take 32 (drop 32 (frames_bits fs))) * 8 \<le> length (frames_bits fs) - 96 \<and>
     unat (crc32 (bits_to_bytes
        (take (bin_value (take 32 (drop 32 (frames_bits fs))) * 8) (drop 96 (frames_bits fs)))))
       \<noteq> bin_value (take 32 (drop 64 (frames_bits fs))) \<longrightarrow>
       decode_pixels_to_data (init w h) fs =
         Inl (ValueError ''Data corruption detected - checksum mismatch'')) \<and>
    (\<forall>v e. path_exn v = None \<and> read_video_frames v = Inr fs \<and>
       decode_pixels_to_data (init w h) fs = Inl (ValueError e) \<longrightarrow>
       retrieve v = Inl (FileCorruptionError (''Data corruption detected: '' @ e))) \<and>
    distinct [''invalid literal for int() with base 2: '' @ [CHR 0x27, CHR 0x27],
      ''Invalid FOLD file format'', ''Incomplete data'',
      ''Data corruption detected - checksum mismatch'']"
proof (intro conjI impI allI)
  show "decode_pixels_to_data (init w h) fs = Inl (ValueError ''Invalid FOLD file format'')"
    if "take 32 (frames_bits fs) \<noteq> FOLD_bits"
    unfolding decode_cases [OF assms] using that by (simp only: if_True if_False simp_thms)
  show "decode_pixels_to_data (init w h) fs = Inl (ValueError ''Incomplete data'')"
    if "take 32 (frames_bits fs) = FOLD_bits \<and>
     length (frames_bits fs) - 96 < bin_value (take 32 (drop 32 (frames_bits fs))) * 8"
    unfolding decode_cases [OF assms] using that by (simp only: if_True if_False simp_thms)
  show "decode_pixels_to_data (init w h) fs =
         Inl (ValueError ''Data corruption detected - checksum mismatch'')"
    if "take 32 (frames_bits fs) = FOLD_bits \<and>
     bin_value (take 32 (drop 32 (frames_bits fs))) * 8 \<le> length (frames_bits fs) - 96 \<and>
     unat (crc32 (bits_to_bytes
        (take (bin_value (take 32 (drop 32 (frames_bits fs))) * 8) (drop 96 (frames_bits fs)))))
       \<noteq> bin_value (take 32 (drop 64 (frames_bits fs)))"
  proof -
    from that have "\<not> length (frames_bits fs) - 96 < bin_value (take 32 (drop 32 (frames_bits fs))) * 8"
      by simp
    with that show ?thesis
      unfolding decode_cases [OF assms] by (simp only: if_True if_False simp_thms)
  qed
  show "retrieve v = Inl (FileCorruptionError (''Data corruption detected: '' @ e))"
    if "path_exn v = None \<and> read_video_frames v = Inr fs \<and>
       decode_pixels_to_data (init w h) fs = Inl (ValueError e)" for v e
  proof -
    from that have a: "path_exn v = None" and b: "read_video_frames v = Inr fs"
      and c: "decode_pixels_to_data (init w h) fs = Inl (ValueError e)" by simp_all
    from a b assms c show ?thesis by (rule retrieve_wraps)
  qed
  show "distinct [''invalid literal for int() with base 2: '' @ [CHR 0x27, CHR 0x27],
      ''Invalid FOLD file format'', ''Incomplete data'',
      ''Data corruption detected - checksum mismatch'']"
    by (rule messages_distinct)
qed

text \<open>The outcomes on three videos of one frame each.\<close>

lemma retrieve_one_frame:
  assumes "length bs = 96" "list_all is_bit bs"
    and "decode_pixels_to_data (init 8 4) [bits_to_fractal_frame (init 8 4) bs] = Inl (ValueError e)"
  shows "retrieve \<lparr>path_exn = None, isOpened = True,
            images = [cvtColor_BGR2RGB (bits_to_fractal_frame (init 8 4) bs)]\<rparr>
      = Inl (FileCorruptionError (''Data corruption detected: '' @ e))"
proof -
  let ?v = "\<lparr>path_exn = None, isOpened = True,
            images = [cvtColor_BGR2RGB (bits_to_fractal_frame (init 8 4) bs)]\<rparr>"
  note f = one_frame_bits [OF assms(1,2)]
  have len: "96 \<le> length (frames_bits [bits_to_fractal_frame (init 8 4) bs])"
    unfolding f(2) using assms(1) by simp
  have p: "path_exn ?v = None" by simp
  have r: "read_video_frames ?v = Inr [bits_to_fractal_frame (init 8 4) bs]"
    by (simp add: read_video_frames_opened cvtColor_twice)
  from p r f(1) len assms(3) show ?thesis by (rule retrieve_wraps)
qed

lemma failure_outcomes_concrete:
  "decode_pixels_to_data (init 8 4) [bits_to_fractal_frame (init 8 4) (replicate 96 CHR ''0'')]
     = Inl (ValueError ''Invalid FOLD file format'') \<and>
   decode_pixels_to_data (init 8 4)
     [bits_to_fractal_frame (init 8 4)
        (FOLD_bits @ (replicate 31 CHR ''0'' @ ''1'') @ replicate 32 CHR ''0'')]
     = Inl (ValueError ''Incomplete data'') \<and>
   decode_pixels_to_data (init 8 4)
     [bits_to_fractal_frame (init 8 4)
        (FOLD_bits @ replicate 32 CHR ''0'' @ (replicate 31 CHR ''0'' @ ''1''))]
     = Inl (ValueError ''Data corruption detected - checksum mismatch'') \<and>
   retrieve \<lparr>path_exn = None, isOpened = True,
      images = [cvtColor_BGR2RGB (bits_to_fractal_frame (init 8 4) (replicate 96 CHR ''0''))]\<rparr>
     = Inl (FileCorruptionError ''Data corruption detected: Invalid FOLD file format'') \<and>
   retrieve \<lparr>path_exn = None, isOpened = True,
      images = [cvtColor_BGR2RGB (bits_to_fractal_frame (init 8 4)
        (FOLD_bits @ (replicate 31 CHR ''0'' @ ''1'') @ replicate 32 CHR ''0''))]\<rparr>
     = Inl (FileCorruptionError ''Data corruption detected: Incomplete data'') \<and>
   retrieve \<lparr>path_exn = None, isOpened = True,
      images = [cvtColor_BGR2RGB (bits_to_fractal_frame (init 8 4)
        (FOLD_bits @ replicate 32 CHR ''0'' @ (replicate 31 CHR ''0'' @ ''1'')))]\<rparr>
     = Inl (FileCorruptionError
              ''Data corruption detected: Data corruption detected - checksum mismatch'')"
proof -
  have r1: "retrieve \<lparr>path_exn = None, isOpened = True,
      images = [cvtColor_BGR2RGB (bits_to_fractal_frame (init 8 4) (replicate 96 CHR ''0''))]\<rparr>
     = Inl (FileCorruptionError (''Data corruption detected: '' @ ''Invalid FOLD file format''))"
    by (rule retrieve_one_frame [OF _ _ bad_magic_frame]) (simp_all add: replicate_bits)
  have r2: "retrieve \<lparr>path_exn = None, isOpened = True,
      images = [cvtColor_BGR2RGB (bits_to_fractal_frame (init 8 4)
        (FOLD_bits @ (replicate 31 CHR ''0'' @ ''1'') @ replicate 32 CHR ''0''))]\<rparr>
     = Inl (FileCorruptionError (''Data corruption detected: '' @ ''Incomplete data''))"
    by (rule retrieve_one_frame [OF _ _ truncated_frame]) (simp_all add: replicate_bits is_bit_def)
  have r3: "retrieve \<lparr>path_exn = None, isOpened = True,
      images = [cvtColor_BGR2RGB (bits_to_fractal_frame (init 8 4)
        (FOLD_bits @ replicate 32 CHR ''0'' @ (replicate 31 CHR ''0'' @ ''1'')))]\<rparr>
     = Inl (FileCorruptionError
         (''Data corruption detected: '' @ ''Data corruption detected - checksum mismatch''))"
    by (rule retrieve_one_frame [OF _ _ bad_checksum_frame]) (simp_all add: replicate_bits is_bit_def)
  from r1 r2 r3 bad_magic_frame truncated_frame bad_checksum_frame
  show ?thesis by simp
qed

text \<open>
  No path of \<^verbatim>\<open>retrieve\<close> reaches its own check for no frames with an empty list:
  \<^verbatim>\<open>_read_video_frames\<close> returns a list only when it is not empty.
\<close>

lemma retrieve_try_frames:
  assumes "path_exn v = None" "isOpened v"
  shows "retrieve_try v =
    (if images v = []
     then Inl (DecodingError ''Failed to read video frames: ''
                 (Some (FileCorruptionError ''Video contains no decodable frames'')))
     else (let frames = map cvtColor_BGR2RGB (images v);
               h = length (hd frames);
               w = (if hd frames = [] then 0 else length (hd (hd frames)))
           in case decode_pixels_to_data (init w h) frames of
                Inl (ValueError e) \<Rightarrow>
                  Inl (FileCorruptionError (''Data corruption detected: '' @ e))
              | Inl e \<Rightarrow> Inl e
              | Inr data \<Rightarrow> Inr data))"
  using assms by (simp add: retrieve_try_def read_video_frames_def Let_def)

text \<open>
  Claim C3, at the input where the code departs from it.  The claim: the four failure
  modes of Decode are reported to the caller as distinct outcomes and never coerced into a
  generic failure, no frames supplied being reported as a corruption error.  The code, on a
  video file that opens and delivers no frame: \<^verbatim>\<open>_read_video_frames\<close> raises
  \<^verbatim>\<open>FileCorruptionError("Video contains no decodable frames")\<close> inside its own \<^verbatim>\<open>try\<close>,
  its handler \<^verbatim>\<open>except Exception\<close> turns that into a \<^verbatim>\<open>DecodingError\<close>, and \<^verbatim>\<open>retrieve\<close>
  wraps it once more, so the caller gets the generic \<^verbatim>\<open>DecodingError\<close> and never the
  \<^verbatim>\<open>FileCorruptionError("No frames found in video")\<close> that \<^verbatim>\<open>retrieve\<close> raises for an empty list
  of frames.  The codec itself, given no frames, has no check either: it raises the
  \<^verbatim>\<open>ValueError\<close> of \<^verbatim>\<open>int('', 2)\<close>.
\<close>

theorem no_frames_coerced_to_decoding_error:
  "retrieve \<lparr>path_exn = None, isOpened = True, images = []\<rparr> =
     Inl (DecodingError ''Failed to decode video: ''
            (Some (DecodingError ''Failed to read video frames: ''
                     (Some (FileCorruptionError ''Video contains no decodable frames''))))) \<and>
   decode_pixels_to_data (init 8 4) [] =
     Inl (ValueError (''invalid literal for int() with base 2: '' @ [CHR 0x27, CHR 0x27]))"
proof
  show "retrieve \<lparr>path_exn = None, isOpened = True, images = []\<rparr> =
     Inl (DecodingError ''Failed to decode video: ''
            (Some (DecodingError ''Failed to read video frames: ''
                     (Some (FileCorruptionError ''Video contains no decodable frames'')))))"
    by (simp add: retrieve_def retrieve_try_def read_video_frames_def)
  show "decode_pixels_to_data (init 8 4) [] =
     Inl (ValueError (''invalid literal for int() with base 2: '' @ [CHR 0x27, CHR 0x27]))"
    by (rule decode_no_frames)
qed

subsection \<open>The CRC-32 detects a changed byte\<close>

lemma crc_shift_msb: "bit (crc_shift x) 31 = bit x 0"
proof -
  have p: "bit (0xEDB88320 :: 32 word) 31" by simp
  have d: "\<not> bit (drop_bit 1 x) 31"
    by (auto simp: bit_drop_bit_eq dest: bit_imp_le_length)
  show ?thesis
    unfolding crc_shift_def using p d by (simp add: bit_xor_iff)
qed

lemma xor_cancel_right: "a XOR k = b XOR k \<Longrightarrow> a = b" for a b k :: "32 word"
proof -
  assume "a XOR k = b XOR k"
  then have "(a XOR k) XOR k = (b XOR k) XOR k" by simp
  then show "a = b" by (simp add: xor.assoc)
qed

lemma crc_shift_inj: "crc_shift c = crc_shift d \<Longrightarrow> c = d"
proof -
  assume eq: "crc_shift c = crc_shift d"
  then have b0: "bit c 0 = bit d 0" using crc_shift_msb [of c] crc_shift_msb [of d] by simp
  with eq have dr: "drop_bit 1 c = drop_bit 1 d"
    by (cases "bit d 0") (auto simp: crc_shift_def dest: xor_cancel_right)
  show "c = d"
  proof (rule bit_eqI)
    fix n
    show "bit c n = bit d n"
    proof (cases n)
      case 0
      with b0 show ?thesis by simp
    next
      case (Suc m)
      have "bit c (Suc m) = bit (drop_bit 1 c) m" by (simp add: bit_drop_bit_eq)
      also have "\<dots> = bit (drop_bit 1 d) m" by (simp only: dr)
      also have "\<dots> = bit d (Suc m)" by (simp add: bit_drop_bit_eq)
      finally show ?thesis using Suc by simp
    qed
  qed
qed

lemma funpow_inj:
  fixes f :: "'a \<Rightarrow> 'a"
  assumes inj: "\<And>x y. f x = f y \<Longrightarrow> x = y"
  shows "(f ^^ n) x = (f ^^ n) y \<Longrightarrow> x = y"
proof (induction n arbitrary: x y)
  case 0
  then show ?case by simp
next
  case (Suc n)
  from Suc.prems have "f ((f ^^ n) x) = f ((f ^^ n) y)" by simp
  then have "(f ^^ n) x = (f ^^ n) y" by (rule inj)
  then show ?case by (rule Suc.IH)
qed

lemma crc_byte_inj_state: "crc_byte c b = crc_byte d b \<Longrightarrow> c = d"
proof -
  assume "crc_byte c b = crc_byte d b"
  then have "(crc_shift ^^ 8) (c XOR ucast b) = (crc_shift ^^ 8) (d XOR ucast b)"
    by (simp only: crc_byte_def)
  with crc_shift_inj have "c XOR ucast b = d XOR ucast b"
    by (rule funpow_inj)
  then show "c = d" by (rule xor_cancel_right)
qed

lemma ucast_byte_inj: "(ucast (b :: byte) :: 32 word) = ucast b' \<Longrightarrow> b = b'"
proof -
  assume "(ucast b :: 32 word) = ucast b'"
  then have "uint (ucast b :: 32 word) = uint (ucast b' :: 32 word)" by simp
  moreover have up: "is_up (ucast :: byte \<Rightarrow> 32 word)" by (simp add: is_up)
  ultimately have "uint b = uint b'" by (simp add: uint_up_ucast)
  then show "b = b'" by (rule word_uint_eqI)
qed

lemma crc_byte_inj_byte: "crc_byte c b = crc_byte c b' \<Longrightarrow> b = b'"
proof -
  assume "crc_byte c b = crc_byte c b'"
  then have "(crc_shift ^^ 8) (c XOR ucast b) = (crc_shift ^^ 8) (c XOR ucast b')"
    by (simp only: crc_byte_def)
  with crc_shift_inj have "c XOR ucast b = c XOR ucast b'"
    by (rule funpow_inj)
  then have "ucast b XOR c = ucast b' XOR c" by (simp add: xor.commute)
  then have "(ucast b :: 32 word) = ucast b'" by (rule xor_cancel_right)
  then show "b = b'" by (rule ucast_byte_inj)
qed

lemma foldl_crc_inj: "foldl crc_byte c xs = foldl crc_byte d xs \<Longrightarrow> c = d"
proof (induction xs arbitrary: c d)
  case Nil
  then show ?case by simp
next
  case (Cons x xs)
  from Cons.prems have "foldl crc_byte (crc_byte c x) xs = foldl crc_byte (crc_byte d x) xs"
    by simp
  then have "crc_byte c x = crc_byte d x" by (rule Cons.IH)
  then show ?case by (rule crc_byte_inj_state)
qed

lemma crc32_update_neq:
  assumes "j < length p" "b' \<noteq> p ! j"
  shows "crc32 (p[j := b']) \<noteq> crc32 p"
proof
  assume eq: "crc32 (p[j := b']) = crc32 p"
  let ?c = "foldl crc_byte 0xFFFFFFFF (take j p)"
  have pe: "take j p @ p ! j # drop (Suc j) p = p"
    using assms(1) by (rule id_take_nth_drop [symmetric])
  have u: "p[j := b'] = take j p @ b' # drop (Suc j) p"
    using assms(1) by (rule upd_conv_take_nth_drop)
  from eq have "foldl crc_byte 0xFFFFFFFF (p[j := b']) = foldl crc_byte 0xFFFFFFFF p"
    unfolding crc32_def by (rule xor_cancel_right)
  then have "foldl crc_byte 0xFFFFFFFF (take j p @ b' # drop (Suc j) p)
      = foldl crc_byte 0xFFFFFFFF (take j p @ p ! j # drop (Suc j) p)"
    by (simp only: u pe)
  then have "foldl crc_byte (crc_byte ?c b') (drop (Suc j) p)
      = foldl crc_byte (crc_byte ?c (p ! j)) (drop (Suc j) p)"
    by (simp only: foldl_append foldl_Cons)
  then have "crc_byte ?c b' = crc_byte ?c (p ! j)" by (rule foldl_crc_inj)
  then have "b' = p ! j" by (rule crc_byte_inj_byte)
  with assms(2) show False by simp
qed

subsection \<open>Corrupting one channel changes one bit\<close>

lemma concat_update_uniform:
  "list_all (\<lambda>xs. length xs = n) xss \<Longrightarrow> k < length xss \<Longrightarrow> j < n \<Longrightarrow>
   concat (xss[k := (xss ! k)[j := a]]) = (concat xss)[k * n + j := a]"
proof (induction xss arbitrary: k)
  case Nil
  then show ?case by simp
next
  case (Cons xs xss)
  show ?case
  proof (cases k)
    case 0
    with Cons.prems show ?thesis by (simp add: list_update_append)
  next
    case (Suc k')
    with Cons.prems have ih: "concat (xss[k' := (xss ! k')[j := a]]) = (concat xss)[k' * n + j := a]"
      by (intro Cons.IH) simp_all
    from Cons.prems(1) have l: "length xs = n" by simp
    have "(xs @ concat xss)[k * n + j := a] = xs @ (concat xss)[k' * n + j := a]"
      using Suc l by (simp add: list_update_append)
    with ih Suc show ?thesis by simp
  qed
qed

lemma pixel_bits_set:
  "c < 3 \<Longrightarrow> pixel_bits (set_channel c v px) = (pixel_bits px)[c := threshold v]"
proof -
  assume "c < 3"
  then consider "c = 0" | "c = 1" | "c = 2" by linarith
  then show ?thesis
    by cases (cases px; simp add: set_channel_def pixel_bits_simp numeral_2_eq_2)+
qed

lemma pixel_bits_get:
  "c < 3 \<Longrightarrow> pixel_bits px ! c = threshold (get_channel c px)"
proof -
  assume "c < 3"
  then consider "c = 0" | "c = 1" | "c = 2" by linarith
  then show ?thesis
    by cases (cases px; simp add: get_channel_def pixel_bits_simp numeral_2_eq_2)+
qed

lemma row_bits_update:
  assumes "x < length row" "c < 3"
  shows "concat (map pixel_bits (row[x := set_channel c v (row ! x)]))
       = (concat (map pixel_bits row))[x * 3 + c := threshold v]"
proof -
  have u: "list_all (\<lambda>xs. length xs = 3) (map pixel_bits row)"
    by (simp add: list_all_iff length_pixel_bits)
  have "map pixel_bits (row[x := set_channel c v (row ! x)])
      = (map pixel_bits row)[x := (map pixel_bits row ! x)[c := threshold v]]"
    using assms by (simp add: map_update pixel_bits_set)
  then show ?thesis
    using concat_update_uniform [OF u, of x c "threshold v"] assms by simp
qed

lemma frame_bits_update:
  assumes "shaped w h f" "y < h" "x < w" "c < 3"
  shows "frame_bits (f[y := (f ! y)[x := set_channel c v (f ! y ! x)]])
       = (frame_bits f)[y * (w * 3) + (x * 3 + c) := threshold v]"
    and "shaped w h (f[y := (f ! y)[x := set_channel c v (f ! y ! x)]])"
proof -
  let ?rb = "\<lambda>row. concat (map pixel_bits row)"
  from assms(1) have len: "length f = h" and rows: "\<forall>row \<in> set f. length row = w"
    by (simp_all add: shaped_def list_all_iff)
  from assms(2) len rows have ry: "length (f ! y) = w" by simp
  have u: "list_all (\<lambda>xs. length xs = w * 3) (map ?rb f)"
    using rows by (simp add: list_all_iff row_bits_length)
  from assms(3,4) have j: "x * 3 + c < w * 3" by simp
  have r: "?rb ((f ! y)[x := set_channel c v (f ! y ! x)])
      = (?rb (f ! y))[x * 3 + c := threshold v]"
    by (rule row_bits_update) (simp_all add: ry assms)
  have n: "map ?rb f ! y = ?rb (f ! y)" using assms(2) len by simp
  have "map ?rb (f[y := (f ! y)[x := set_channel c v (f ! y ! x)]])
      = (map ?rb f)[y := ?rb ((f ! y)[x := set_channel c v (f ! y ! x)])]"
    by (rule map_update)
  then have "map ?rb (f[y := (f ! y)[x := set_channel c v (f ! y ! x)]])
      = (map ?rb f)[y := (map ?rb f ! y)[x * 3 + c := threshold v]]"
    by (simp only: r n)
  then show "frame_bits (f[y := (f ! y)[x := set_channel c v (f ! y ! x)]])
       = (frame_bits f)[y * (w * 3) + (x * 3 + c) := threshold v]"
    using concat_update_uniform [OF u, of y "x * 3 + c" "threshold v"] assms(2) len j
    by (simp add: frame_bits_def)
  show "shaped w h (f[y := (f ! y)[x := set_channel c v (f ! y ! x)]])"
    using len rows ry by (auto simp: shaped_def list_all_iff dest!: set_update_subset_insert [THEN subsetD])
qed

lemma frames_bits_corrupt:
  assumes "list_all (shaped w h) fs" "k < length fs" "y < h" "x < w" "c < 3"
  shows "frames_bits (corrupt fs k y x c v)
       = (frames_bits fs)[k * (w * h * 3) + (y * w + x) * 3 + c := threshold v]"
    and "list_all (shaped w h) (corrupt fs k y x c v)"
    and "frames_bits fs ! (k * (w * h * 3) + (y * w + x) * 3 + c)
       = threshold (get_channel c (fs ! k ! y ! x))"
    and "k * (w * h * 3) + (y * w + x) * 3 + c < length (frames_bits fs)"
proof -
  let ?f' = "(fs ! k)[y := (fs ! k ! y)[x := set_channel c v (fs ! k ! y ! x)]]"
  let ?j = "y * (w * 3) + (x * 3 + c)"
  from assms(1,2) have sh: "shaped w h (fs ! k)" by (simp add: list_all_length)
  note fu = frame_bits_update [OF sh assms(3-5), of v]
  have u: "list_all (\<lambda>xs. length xs = h * (w * 3)) (map frame_bits fs)"
    using assms(1) by (simp add: list_all_iff frame_bits_length)
  have "x * 3 + c < w * 3" using assms(4,5) by simp
  moreover have "y * (w * 3) + w * 3 \<le> h * (w * 3)"
  proof -
    from assms(3) have "Suc y \<le> h" by simp
    then have "Suc y * (w * 3) \<le> h * (w * 3)" by (rule mult_le_mono1)
    then show ?thesis by simp
  qed
  ultimately have j: "?j < h * (w * 3)" by linarith
  have idx: "k * (w * h * 3) + (y * w + x) * 3 + c = k * (h * (w * 3)) + ?j"
    by (simp add: algebra_simps)
  have n: "map frame_bits fs ! k = frame_bits (fs ! k)" using assms(2) by simp
  have "map frame_bits (fs[k := ?f']) = (map frame_bits fs)[k := frame_bits ?f']"
    by (rule map_update)
  then have "map frame_bits (fs[k := ?f'])
      = (map frame_bits fs)[k := (map frame_bits fs ! k)[?j := threshold v]]"
    by (simp only: fu(1) n)
  then have "concat (map frame_bits (fs[k := ?f']))
      = (concat (map frame_bits fs))[k * (h * (w * 3)) + ?j := threshold v]"
    using concat_update_uniform [OF u, of k ?j "threshold v"] assms(2) j by simp
  then show "frames_bits (corrupt fs k y x c v)
       = (frames_bits fs)[k * (w * h * 3) + (y * w + x) * 3 + c := threshold v]"
    unfolding frames_bits_def corrupt_def idx .
  show "list_all (shaped w h) (corrupt fs k y x c v)"
    using assms(1) fu(2)
    by (auto simp: corrupt_def list_all_iff dest!: set_update_subset_insert [THEN subsetD])
  have "frames_bits fs ! (k * (w * h * 3) + (y * w + x) * 3 + c) = pixel_bits (fs ! k ! y ! x) ! c"
    unfolding frames_bits_def by (rule frames_bits_nth [OF assms])
  then show "frames_bits fs ! (k * (w * h * 3) + (y * w + x) * 3 + c)
       = threshold (get_channel c (fs ! k ! y ! x))"
    using assms(5) by (simp add: pixel_bits_get)
  have "length (frames_bits fs) = length fs * (h * (w * 3))"
    using length_concat_uniform [OF u] by (simp add: frames_bits_def)
  moreover have "k * (h * (w * 3)) + h * (w * 3) \<le> length fs * (h * (w * 3))"
  proof -
    from assms(2) have "Suc k \<le> length fs" by simp
    then have "Suc k * (h * (w * 3)) \<le> length fs * (h * (w * 3))" by (rule mult_le_mono1)
    then show ?thesis by simp
  qed
  ultimately show "k * (w * h * 3) + (y * w + x) * 3 + c < length (frames_bits fs)"
    unfolding idx using j by linarith
qed

subsection \<open>A flipped bit of the stream\<close>

lemma update_bits: "list_all is_bit S \<Longrightarrow> is_bit t \<Longrightarrow> list_all is_bit (S[i := t])"
  by (auto simp: list_all_iff dest!: set_update_subset_insert [THEN subsetD])

lemma threshold_is_bit: "is_bit (threshold v)"
  by (simp add: threshold_def is_bit_def)

lemma update_neq: "i < length xs \<Longrightarrow> t \<noteq> xs ! i \<Longrightarrow> xs[i := t] \<noteq> xs"
  by (metis nth_list_update_eq)

lemma stream_fields:
  assumes L: "length p < 2 ^ 32" and Z: "list_all is_bit Z"
  shows "list_all is_bit (prepare_bit_string p @ Z)"
    and "length (prepare_bit_string p @ Z) = 96 + 8 * length p + length Z"
    and "take 32 (prepare_bit_string p @ Z) = FOLD_bits"
    and "take 32 (drop 32 (prepare_bit_string p @ Z)) = format_0b 32 (length p)"
    and "take 32 (drop 64 (prepare_bit_string p @ Z)) = format_0b 32 (unat (crc32 p))"
    and "drop 96 (prepare_bit_string p @ Z) = concat (map (\<lambda>b. format_0b 8 (unat b)) p) @ Z"
proof -
  have lL: "length (format_0b 32 (length p)) = 32" using L by (simp add: length_format_0b)
  note lC = length_format_crc [of "crc32 p"]
  show "list_all is_bit (prepare_bit_string p @ Z)" using Z by (simp add: prepare_bits)
  show "length (prepare_bit_string p @ Z) = 96 + 8 * length p + length Z"
    by (simp add: prepare_length [OF L])
  show "take 32 (prepare_bit_string p @ Z) = FOLD_bits" by (simp add: prepare_eq)
  show "take 32 (drop 32 (prepare_bit_string p @ Z)) = format_0b 32 (length p)"
    by (simp add: prepare_eq lL)
  show "take 32 (drop 64 (prepare_bit_string p @ Z)) = format_0b 32 (unat (crc32 p))"
    by (simp add: prepare_eq lL lC)
  show "drop 96 (prepare_bit_string p @ Z) = concat (map (\<lambda>b. format_0b 8 (unat b)) p) @ Z"
    by (simp add: prepare_eq lL lC)
qed

lemma flip_magic:
  assumes S: "list_all is_bit S" "96 \<le> length S" "take 32 S = FOLD_bits"
    and i: "i < 32" and t: "is_bit t" "t \<noteq> S ! i"
  shows "parse_bit_string (S[i := t]) = Inl (ValueError ''Invalid FOLD file format'')"
proof -
  have b: "list_all is_bit (S[i := t])" using S(1) t(1) by (rule update_bits)
  have l: "96 \<le> length (S[i := t])" using S(2) by simp
  have "take 32 (S[i := t]) = (take 32 S)[i := t]" using i by (simp add: take_update_swap)
  moreover have "(take 32 S)[i := t] \<noteq> take 32 S"
    using i S(2) t(2) by (intro update_neq) simp_all
  ultimately have m: "take 32 (S[i := t]) \<noteq> FOLD_bits" using S(3) by simp
  show ?thesis unfolding parse_cases [OF b l] using m by simp
qed

lemma flip_padding:
  assumes L: "length p < 2 ^ 32" and Z: "list_all is_bit Z"
    and i: "length (prepare_bit_string p) \<le> i" and t: "is_bit t"
  shows "parse_bit_string ((prepare_bit_string p @ Z)[i := t]) = Inr p"
proof -
  have "(prepare_bit_string p @ Z)[i := t]
      = prepare_bit_string p @ Z[i - length (prepare_bit_string p) := t]"
    using i by (simp add: list_update_append)
  moreover have "list_all is_bit (Z[i - length (prepare_bit_string p) := t])"
    using Z t by (rule update_bits)
  ultimately show ?thesis by (simp only: parse_prepare_padded [OF L])
qed

lemma flip_checksum:
  assumes L: "length p < 2 ^ 32" and Z: "list_all is_bit Z"
    and i: "64 \<le> i" "i < 96" and t: "is_bit t" "t \<noteq> (prepare_bit_string p @ Z) ! i"
  shows "parse_bit_string ((prepare_bit_string p @ Z)[i := t])
       = Inl (ValueError ''Data corruption detected - checksum mismatch'')"
proof -
  define S where "S = prepare_bit_string p @ Z"
  let ?Cb = "format_0b 32 (unat (crc32 p))"
  let ?D = "concat (map (\<lambda>b. format_0b 8 (unat b)) p)"
  note f = stream_fields [OF L Z, folded S_def]
  have lC: "length ?Cb = 32" by (rule length_format_crc)
  have lD: "length ?D = 8 * length p" by (rule data_bits_length)
  have b': "list_all is_bit (S[i := t])" using f(1) t(1) by (rule update_bits)
  have len: "96 \<le> length (S[i := t])" using f(2) by simp
  have m: "take 32 (S[i := t]) = FOLD_bits" using i f(3) by simp
  have "drop 32 (S[i := t]) = (drop 32 S)[i - 32 := t]" using i by (simp add: drop_update_swap)
  then have l: "take 32 (drop 32 (S[i := t])) = format_0b 32 (length p)"
    using i f(4) by simp
  have d: "drop 96 (S[i := t]) = ?D @ Z" using i f(6) by simp
  have n: "length (S[i := t]) - 96 = 8 * length p + length Z" using f(2) by simp
  have tk: "take (length p * 8) (?D @ Z) = ?D" by (simp add: lD)
  have "drop 64 (S[i := t]) = (drop 64 S)[i - 64 := t]" using i by (simp add: drop_update_swap)
  then have c: "take 32 (drop 64 (S[i := t])) = ?Cb[i - 64 := t]"
    using i f(5) by (simp add: take_update_swap)
  have "?Cb ! (i - 64) = take 32 (drop 64 S) ! (i - 64)" by (simp only: f(5))
  also have "\<dots> = S ! i" using i f(2) by simp
  finally have old: "?Cb ! (i - 64) = S ! i" .
  from t(2) have "t \<noteq> ?Cb ! (i - 64)" unfolding old S_def .
  then have "?Cb[i - 64 := t] \<noteq> ?Cb"
    using i lC by (intro update_neq) simp_all
  moreover have "list_all is_bit (?Cb[i - 64 := t])"
    using format_0b_bits t(1) by (rule update_bits)
  ultimately have "bin_value (?Cb[i - 64 := t]) \<noteq> bin_value ?Cb"
    using bin_value_inj [of "?Cb[i - 64 := t]" ?Cb] by (auto simp: format_0b_bits)
  then have ne: "unat (crc32 p) \<noteq> bin_value (?Cb[i - 64 := t])"
    by (simp add: bin_value_format_0b)
  have "parse_bit_string (S[i := t]) = Inl (ValueError ''Data corruption detected - checksum mismatch'')"
    unfolding parse_cases [OF b' len] m l c d n
    using ne by (simp only: bin_value_format_0b tk data_bits_bytes) simp
  then show ?thesis by (simp only: S_def)
qed

lemma bits_to_bytes_concat:
  "list_all (\<lambda>x. length x = 8) M \<Longrightarrow>
   bits_to_bytes (concat M) = map (\<lambda>x. word_of_nat (bin_value x)) M"
  by (induction M) (simp_all add: bits_to_bytes_Nil bits_to_bytes_Cons)

lemma byte_of_nat_inj:
  assumes "a < 256" "b < 256" "(word_of_nat a :: byte) = word_of_nat b"
  shows "a = b"
proof -
  from assms(3) have "unat (word_of_nat a :: byte) = unat (word_of_nat b :: byte)" by simp
  then have "a mod 256 = b mod 256" by (simp add: unat_of_nat)
  with assms(1,2) show ?thesis by simp
qed

lemma flipped_byte:
  assumes "r < 8" "is_bit t" "t \<noteq> format_0b 8 (unat (b :: byte)) ! r"
  shows "(word_of_nat (bin_value ((format_0b 8 (unat b))[r := t])) :: byte) \<noteq> b"
proof
  let ?s = "format_0b 8 (unat b)"
  assume eq: "(word_of_nat (bin_value (?s[r := t])) :: byte) = b"
  have l: "length ?s = 8" by (rule length_format_byte)
  have bs: "list_all is_bit (?s[r := t])" using format_0b_bits assms(2) by (rule update_bits)
  have "bin_value (?s[r := t]) < 2 ^ length (?s[r := t])" by (rule bin_value_bound)
  then have a: "bin_value (?s[r := t]) < 256" by (simp add: l)
  have b: "unat b < 256" using unsigned_less [of b] by simp
  have "(word_of_nat (bin_value (?s[r := t])) :: byte) = word_of_nat (unat b)"
    using eq by simp
  from byte_of_nat_inj [OF a b this] have "bin_value (?s[r := t]) = bin_value ?s"
    by (simp add: bin_value_format_0b)
  then have "?s[r := t] = ?s"
    using bs format_0b_bits by (intro bin_value_inj) simp_all
  moreover have "?s[r := t] \<noteq> ?s" using assms(1,3) l by (intro update_neq) simp_all
  ultimately show False by simp
qed

lemma flipped_payload_bytes:
  assumes i: "i < 8 * length (p :: byte list)" and t: "is_bit t"
    and ne: "t \<noteq> concat (map (\<lambda>b. format_0b 8 (unat b)) p) ! i"
  shows "\<exists>b'. b' \<noteq> p ! (i div 8) \<and>
     bits_to_bytes ((concat (map (\<lambda>b. format_0b 8 (unat b)) p))[i := t]) = p[i div 8 := b']"
proof -
  let ?f = "\<lambda>b :: byte. format_0b 8 (unat b)"
  let ?M = "map ?f p"
  let ?j = "i div 8" and ?r = "i mod 8"
  let ?g = "\<lambda>x. word_of_nat (bin_value x) :: byte"
  have u: "list_all (\<lambda>x. length x = 8) ?M" by (simp add: list_all_iff length_format_byte)
  from i have j: "?j < length ?M" by simp
  have r: "?r < 8" by simp
  have idx: "?j * 8 + ?r = i" by simp
  have old: "concat ?M ! i = ?f (p ! ?j) ! ?r"
    using nth_concat_uniform [OF u j r] j by (simp only: idx) simp
  have upd: "(concat ?M)[i := t] = concat (?M[?j := (?M ! ?j)[?r := t]])"
    using concat_update_uniform [OF u j r, of t] by (simp only: idx)
  have u': "list_all (\<lambda>x. length x = 8) (?M[?j := (?M ! ?j)[?r := t]])"
    using u j by (auto simp: list_all_iff length_format_byte dest!: set_update_subset_insert [THEN subsetD])
  have gf: "map ?g ?M = p" by (simp add: comp_def bin_value_format_0b)
  have "bits_to_bytes ((concat ?M)[i := t]) = map ?g (?M[?j := (?M ! ?j)[?r := t]])"
    unfolding upd by (rule bits_to_bytes_concat [OF u'])
  also have "\<dots> = (map ?g ?M)[?j := ?g ((?M ! ?j)[?r := t])]" by (rule map_update)
  also have "\<dots> = p[?j := ?g ((?f (p ! ?j))[?r := t])]"
    using j by (simp only: gf) simp
  finally have e: "bits_to_bytes ((concat ?M)[i := t]) = p[?j := ?g ((?f (p ! ?j))[?r := t])]" .
  from ne old have "t \<noteq> ?f (p ! ?j) ! ?r" by simp
  from flipped_byte [OF r t this] e show ?thesis by blast
qed

lemma flip_payload:
  assumes L: "length p < 2 ^ 32" and Z: "list_all is_bit Z"
    and i: "96 \<le> i" "i < 96 + 8 * length p"
    and t: "is_bit t" "t \<noteq> (prepare_bit_string p @ Z) ! i"
  shows "parse_bit_string ((prepare_bit_string p @ Z)[i := t])
       = Inl (ValueError ''Data corruption detected - checksum mismatch'')"
proof -
  define S where "S = prepare_bit_string p @ Z"
  let ?D = "concat (map (\<lambda>b. format_0b 8 (unat b)) p)"
  note f = stream_fields [OF L Z, folded S_def]
  have lD: "length ?D = 8 * length p" by (rule data_bits_length)
  have bits': "list_all is_bit (S[i := t])" using f(1) t(1) by (rule update_bits)
  have len: "96 \<le> length (S[i := t])" using f(2) by simp
  have m: "take 32 (S[i := t]) = FOLD_bits" using i f(3) by simp
  have l: "take 32 (drop 32 (S[i := t])) = format_0b 32 (length p)"
    using i f(4) by (simp add: drop_update_swap)
  have c: "take 32 (drop 64 (S[i := t])) = format_0b 32 (unat (crc32 p))"
    using i f(5) by (simp add: drop_update_swap)
  have "drop 96 (S[i := t]) = (drop 96 S)[i - 96 := t]" using i by (simp add: drop_update_swap)
  also have "\<dots> = ?D[i - 96 := t] @ Z"
  proof -
    from i have "i - 96 < length ?D" unfolding lD by linarith
    then show ?thesis unfolding f(6) by (rule list_update_append1)
  qed
  finally have d: "drop 96 (S[i := t]) = ?D[i - 96 := t] @ Z" .
  have n: "length (S[i := t]) - 96 = 8 * length p + length Z" using f(2) by simp
  have tk: "take (length p * 8) (?D[i - 96 := t] @ Z) = ?D[i - 96 := t]" by (simp add: lD)
  have iD: "i - 96 < length ?D" using i unfolding lD by linarith
  then have "?D ! (i - 96) = (?D @ Z) ! (i - 96)" by (simp only: nth_append if_True)
  also have "\<dots> = drop 96 S ! (i - 96)" by (simp only: f(6))
  also have "\<dots> = S ! i" using i f(2) by simp
  finally have old: "?D ! (i - 96) = S ! i" .
  from t(2) have ne: "t \<noteq> ?D ! (i - 96)" unfolding old S_def .
  from iD have i': "i - 96 < 8 * length p" by (simp only: lD)
  from flipped_payload_bytes [OF i' t(1) ne] obtain b' where
    nb: "b' \<noteq> p ! ((i - 96) div 8)"
    and bb: "bits_to_bytes (?D[i - 96 := t]) = p[(i - 96) div 8 := b']"
    by blast
  from i' have "(i - 96) div 8 < length p" by simp
  from crc32_update_neq [OF this nb] have "crc32 (p[(i - 96) div 8 := b']) \<noteq> crc32 p" .
  then have ne: "unat (crc32 (p[(i - 96) div 8 := b'])) \<noteq> unat (crc32 p)"
    by (simp add: word_unat_eq_iff)
  have "parse_bit_string (S[i := t]) = Inl (ValueError ''Data corruption detected - checksum mismatch'')"
    unfolding parse_cases [OF bits' len] m l c d n
    using ne by (simp only: bin_value_format_0b tk bb) simp
  then show ?thesis by (simp only: S_def)
qed

subsection \<open>Corrupting one channel of the encoded frames\<close>

lemma encoded_stream:
  assumes "0 < w * h" "encode_data_to_pixels (init w h) p = Inr fs"
  shows "list_all (shaped w h) fs"
    and "frames_bits fs = prepare_bit_string p @
          replicate (length fs * (w * h * 3) - length (prepare_bit_string p)) CHR ''0''"
proof -
  from encode_frames [OF assms(1) prepare_bits [of p]] assms(2)
  have "list_all (shaped w h) fs \<and>
      length fs = (length (prepare_bit_string p) + w * h * 3 - 1) div (w * h * 3) \<and>
      concat (map frame_bits fs) =
        prepare_bit_string p @
        replicate ((length (prepare_bit_string p) + w * h * 3 - 1) div (w * h * 3) * (w * h * 3)
                    - length (prepare_bit_string p)) CHR ''0''"
    by auto
  then show "list_all (shaped w h) fs"
    and "frames_bits fs = prepare_bit_string p @
          replicate (length fs * (w * h * 3) - length (prepare_bit_string p)) CHR ''0''"
    by (simp_all add: frames_bits_def)
qed

lemma corrupt_stream:
  assumes "0 < w * h" "encode_data_to_pixels (init w h) p = Inr fs"
    and "k < length fs" "y < h" "x < w" "c < 3"
  shows "decode_pixels_to_data (init w h) (corrupt fs k y x c v) =
      parse_bit_string
        ((prepare_bit_string p @
            replicate (length fs * (w * h * 3) - length (prepare_bit_string p)) CHR ''0'')
         [k * (w * h * 3) + (y * w + x) * 3 + c := threshold v])"
    and "(prepare_bit_string p @
            replicate (length fs * (w * h * 3) - length (prepare_bit_string p)) CHR ''0'')
          ! (k * (w * h * 3) + (y * w + x) * 3 + c)
         = threshold (get_channel c (fs ! k ! y ! x))"
proof -
  note e = encoded_stream [OF assms(1,2)]
  note c1 = frames_bits_corrupt(1) [OF e(1) assms(3-6), where v = v]
  note c2 = frames_bits_corrupt(2) [OF e(1) assms(3-6), where v = v]
  note c3 = frames_bits_corrupt(3) [OF e(1) assms(3-6)]
  show "decode_pixels_to_data (init w h) (corrupt fs k y x c v) =
      parse_bit_string
        ((prepare_bit_string p @
            replicate (length fs * (w * h * 3) - length (prepare_bit_string p)) CHR ''0'')
         [k * (w * h * 3) + (y * w + x) * 3 + c := threshold v])"
    unfolding decode_shaped [OF c2] frames_bits_def [symmetric] c1 e(2) ..
  show "(prepare_bit_string p @
            replicate (length fs * (w * h * 3) - length (prepare_bit_string p)) CHR ''0'')
          ! (k * (w * h * 3) + (y * w + x) * 3 + c)
         = threshold (get_channel c (fs ! k ! y ! x))"
    using c3 unfolding e(2) .
qed

text \<open>
  Claim C4, as the code has it.  The checksum covers the payload bytes only.  For every
  payload (of fewer than \<open>2\<^sup>3\<^sup>2\<close> bytes) and dimensions with \<open>width * height * 3 \<ge> 96\<close>, let
  one channel value of the encoded frames be replaced by a value on the other side of the
  threshold 128, and let \<open>i = k * capacity + (y * width + x) * 3 + c\<close> be the position of its
  bit.  If the channel carries a checksum or payload bit (\<open>64 \<le> i < 96 + 8 * len\<close>), Decode
  fails with the checksum mismatch.  If it carries a bit of the magic marker (\<open>i < 32\<close>),
  Decode fails with the format error instead.  If it carries padding (\<open>i \<ge> 96 + 8 * len\<close>),
  Decode does not fail: it returns the payload unchanged.  (A channel that carries a bit of
  the length field is not covered by this statement.)
\<close>

theorem single_channel_corruption:
  assumes "96 \<le> w * h * 3" "length p < 2 ^ 32"
    and "encode_data_to_pixels (init w h) p = Inr fs"
    and "k < length fs" "y < h" "x < w" "c < 3"
    and "threshold v \<noteq> threshold (get_channel c (fs ! k ! y ! x))"
  shows
    "(k * (w * h * 3) + (y * w + x) * 3 + c < 32 \<longrightarrow>
        decode_pixels_to_data (init w h) (corrupt fs k y x c v)
          = Inl (ValueError ''Invalid FOLD file format'')) \<and>
     (64 \<le> k * (w * h * 3) + (y * w + x) * 3 + c \<and>
      k * (w * h * 3) + (y * w + x) * 3 + c < 96 + 8 * length p \<longrightarrow>
        decode_pixels_to_data (init w h) (corrupt fs k y x c v)
          = Inl (ValueError ''Data corruption detected - checksum mismatch'')) \<and>
     (96 + 8 * length p \<le> k * (w * h * 3) + (y * w + x) * 3 + c \<longrightarrow>
        decode_pixels_to_data (init w h) (corrupt fs k y x c v) = Inr p)"
proof -
  define i where "i = k * (w * h * 3) + (y * w + x) * 3 + c"
  define Z where "Z = replicate (length fs * (w * h * 3) - length (prepare_bit_string p)) CHR ''0''"
  define t where "t = threshold v"
  from assms(1) have pos: "0 < w * h" by (cases "w * h = 0") simp_all
  note cs = corrupt_stream [OF pos assms(3-7), folded Z_def i_def]
  have Zb: "list_all is_bit Z" unfolding Z_def by (rule replicate_bits)
  have tb: "is_bit t" unfolding t_def by (rule threshold_is_bit)
  from cs(2) assms(8) have tn: "t \<noteq> (prepare_bit_string p @ Z) ! i"
    unfolding t_def by simp
  note f = stream_fields [OF assms(2) Zb]
  have dec: "decode_pixels_to_data (init w h) (corrupt fs k y x c v)
      = parse_bit_string ((prepare_bit_string p @ Z)[i := t])"
    unfolding t_def by (rule cs(1))
  have a: "parse_bit_string ((prepare_bit_string p @ Z)[i := t])
      = Inl (ValueError ''Invalid FOLD file format'')" if "i < 32"
    using f(1) _ f(3) that tb tn by (rule flip_magic) (simp only: f(2))
  have b: "parse_bit_string ((prepare_bit_string p @ Z)[i := t])
      = Inl (ValueError ''Data corruption detected - checksum mismatch'')"
    if "64 \<le> i \<and> i < 96 + 8 * length p"
  proof (cases "i < 96")
    case True
    with that show ?thesis using flip_checksum [OF assms(2) Zb _ _ tb tn] by simp
  next
    case False
    with that show ?thesis using flip_payload [OF assms(2) Zb _ _ tb tn] by simp
  qed
  have d: "parse_bit_string ((prepare_bit_string p @ Z)[i := t]) = Inr p"
    if "96 + 8 * length p \<le> i"
    using assms(2) Zb _ tb by (rule flip_padding) (simp add: prepare_length [OF assms(2)] that)
  from a b d show ?thesis unfolding dec i_def by blast
qed

subsection \<open>A payload whose CRC-32 is zero\<close>

lemma funpow8: "(f ^^ 8) x = f (f (f (f (f (f (f (f x)))))))"
  by (simp add: eval_nat_numeral)

lemma crc_step_0: "crc_byte 0xFFFFFFFF 0x9D = 0xA343FF8B"
  by (simp add: crc_byte_def funpow8 crc_shift_def)

lemma crc_step_1: "crc_byte 0xA343FF8B 0xA = 0x9A1CF049"
  by (simp add: crc_byte_def funpow8 crc_shift_def)

lemma crc_step_2: "crc_byte 0x9A1CF049 0xD9 = 0xF0958FB4"
  by (simp add: crc_byte_def funpow8 crc_shift_def)

lemma crc_step_3: "crc_byte 0xF0958FB4 0x6D = 0xFFFFFFFF"
  by (simp add: crc_byte_def funpow8 crc_shift_def)

lemma crc32_zero_payload: "crc32 [0x9d, 0x0a, 0xd9, 0x6d] = 0"
  by (simp add: crc32_def crc_step_0 crc_step_1 crc_step_2 crc_step_3)

lemma format_4: "format_0b 32 4 = replicate 29 CHR ''0'' @ ''100''"
  by code_simp

lemma length_field_flipped: "(replicate 29 CHR ''0'' @ ''100'')[29 := CHR ''0''] = replicate 32 CHR ''0''"
proof -
  have "(replicate 29 CHR ''0'' @ ''100'')[29 := CHR ''0''] = replicate 29 CHR ''0'' @ ''000''"
    by (simp add: list_update_append)
  also have "\<dots> = replicate 29 CHR ''0'' @ replicate 3 CHR ''0''"
    by (simp add: numeral_3_eq_3)
  also have "\<dots> = replicate 32 CHR ''0''"
    by (simp add: replicate_add [symmetric])
  finally show ?thesis .
qed

lemma padding_flip_example:
  assumes "encode_data_to_pixels (init 8 8) [104, 105] = Inr fs"
  shows "threshold 255 \<noteq> threshold (get_channel 2 (fs ! 0 ! 7 ! 7))"
    and "decode_pixels_to_data (init 8 8) (corrupt fs 0 7 7 2 255) = Inr [104, 105]"
proof -
  let ?p = "[104, 105] :: byte list"
  have L: "length ?p < 2 ^ 32" by simp
  have lB: "length (prepare_bit_string ?p) = 112" using prepare_length [OF L] by simp
  from roundtrip_any_capacity [of 8 8 ?p] assms have n: "length fs = 1" by auto
  define Z where "Z = replicate (length fs * (8 * 8 * 3) - length (prepare_bit_string ?p)) CHR ''0''"
  have Z: "Z = replicate 80 CHR ''0''" by (simp add: Z_def n lB)
  have Zb: "list_all is_bit Z" unfolding Z by (rule replicate_bits)
  have k: "0 < length fs" using n by simp
  have i: "0 * (8 * 8 * 3) + (7 * 8 + 7) * 3 + 2 = (191::nat)" by simp
  note cs = corrupt_stream [of 8 8 ?p fs 0 7 7 2, OF _ assms k, folded Z_def, unfolded i]
  have old: "(prepare_bit_string ?p @ Z) ! 191 = CHR ''0''"
    by (simp add: nth_append lB Z)
  from cs(2) old have "threshold (get_channel 2 (fs ! 0 ! 7 ! 7)) = CHR ''0''" by simp
  then show "threshold 255 \<noteq> threshold (get_channel 2 (fs ! 0 ! 7 ! 7))"
    by (simp add: threshold_def)
  have "parse_bit_string ((prepare_bit_string ?p @ Z)[191 := threshold 255]) = Inr ?p"
    using L Zb _ threshold_is_bit by (rule flip_padding) (simp add: lB)
  with cs(1) show "decode_pixels_to_data (init 8 8) (corrupt fs 0 7 7 2 255) = Inr [104, 105]"
    by simp
qed

lemma length_flip_example:
  assumes "encode_data_to_pixels (init 8 8) [0x9d, 0x0a, 0xd9, 0x6d] = Inr fs"
  shows "threshold 0 \<noteq> threshold (get_channel 1 (fs ! 0 ! 2 ! 4))"
    and "decode_pixels_to_data (init 8 8) (corrupt fs 0 2 4 1 0) = Inr []"
proof -
  let ?p = "[0x9d, 0x0a, 0xd9, 0x6d] :: byte list"
  have L: "length ?p < 2 ^ 32" by simp
  have lp: "length ?p = 4" by simp
  from roundtrip_any_capacity [of 8 8 ?p] assms have n: "length fs = 1" by auto
  define Z where "Z = replicate (length fs * (8 * 8 * 3) - length (prepare_bit_string ?p)) CHR ''0''"
  define S where "S = prepare_bit_string ?p @ Z"
  have Zb: "list_all is_bit Z" unfolding Z_def by (rule replicate_bits)
  have k: "0 < length fs" using n by simp
  have i: "0 * (8 * 8 * 3) + (2 * 8 + 4) * 3 + 1 = (61::nat)" by simp
  note cs = corrupt_stream [of 8 8 ?p fs 0 2 4 1, OF _ assms k, folded Z_def, unfolded i, folded S_def]
  note f = stream_fields [OF L Zb, folded S_def, unfolded lp crc32_zero_payload]
  have t: "threshold 0 = CHR ''0''" by (simp add: threshold_def)
  have "S ! 61 = take 32 (drop 32 S) ! 29" using f(2) by simp
  also have "\<dots> = CHR ''1''" unfolding f(4) format_4 by (simp add: nth_append)
  finally have old: "S ! 61 = CHR ''1''" .
  from cs(2) old have "threshold (get_channel 1 (fs ! 0 ! 2 ! 4)) = CHR ''1''" by simp
  then show "threshold 0 \<noteq> threshold (get_channel 1 (fs ! 0 ! 2 ! 4))" by (simp add: t)
  let ?S' = "S[61 := CHR ''0'']"
  have b: "list_all is_bit ?S'" using f(1) by (rule update_bits) (simp add: is_bit_def)
  have len: "96 \<le> length ?S'" using f(2) by simp
  have m: "take 32 ?S' = FOLD_bits" using f(3) by simp
  have "drop 32 ?S' = (drop 32 S)[29 := CHR ''0'']" by (simp add: drop_update_swap)
  then have "take 32 (drop 32 ?S') = (take 32 (drop 32 S))[29 := CHR ''0'']"
    by (simp add: take_update_swap)
  then have l: "take 32 (drop 32 ?S') = replicate 32 CHR ''0''"
    unfolding f(4) format_4 length_field_flipped .
  have c: "take 32 (drop 64 ?S') = format_0b 32 (unat (0 :: 32 word))" using f(5) by simp
  have z: "crc32 [] = 0" by (simp add: crc32_def)
  have "parse_bit_string ?S' = Inr []"
    unfolding parse_cases [OF b len] m l c bin_value_zeros bin_value_format_0b
    by (simp add: bits_to_bytes_Nil z)
  with cs(1) show "decode_pixels_to_data (init 8 8) (corrupt fs 0 2 4 1 0) = Inr []"
    by (simp add: t)
qed

theorem single_channel_corruption_witness:
  "(96::nat) \<le> 8 * 8 * 3 \<and> length [104, 105 :: byte] < 2 ^ 32 \<and>
   (\<exists>fs. encode_data_to_pixels (init 8 8) [104, 105] = Inr fs \<and> length fs = 1 \<and>
      decode_pixels_to_data (init 8 8)
         (corrupt fs 0 0 0 0 (if 128 \<le> get_channel 0 (fs ! 0 ! 0 ! 0) then 0 else 255))
        = Inl (ValueError ''Invalid FOLD file format'') \<and>
      decode_pixels_to_data (init 8 8)
         (corrupt fs 0 2 5 1 (if 128 \<le> get_channel 1 (fs ! 0 ! 2 ! 5) then 0 else 255))
        = Inl (ValueError ''Data corruption detected - checksum mismatch'') \<and>
      decode_pixels_to_data (init 8 8)
         (corrupt fs 0 4 4 0 (if 128 \<le> get_channel 0 (fs ! 0 ! 4 ! 4) then 0 else 255))
        = Inl (ValueError ''Data corruption detected - checksum mismatch'') \<and>
      decode_pixels_to_data (init 8 8)
         (corrupt fs 0 7 7 2 (if 128 \<le> get_channel 2 (fs ! 0 ! 7 ! 7) then 0 else 255))
        = Inr [104, 105])"
proof -
  let ?p = "[104, 105] :: byte list"
  have h1: "(96::nat) \<le> 8 * 8 * 3" and h2: "length ?p < 2 ^ 32" by simp_all
  from roundtrip_any_capacity [of 8 8 ?p] obtain fs where
    fs: "encode_data_to_pixels (init 8 8) ?p = Inr fs" and n: "length fs = 1" by auto
  have k: "0 < length fs" using n by simp
  have cross: "threshold (if 128 \<le> u then 0 else 255) \<noteq> threshold u" for u
    by (simp add: threshold_def)
  note t = single_channel_corruption [OF h1 h2 fs k _ _ _ cross]
  have a: "decode_pixels_to_data (init 8 8)
         (corrupt fs 0 0 0 0 (if 128 \<le> get_channel 0 (fs ! 0 ! 0 ! 0) then 0 else 255))
        = Inl (ValueError ''Invalid FOLD file format'')"
    using t [of 0 0 0] by simp
  have b: "decode_pixels_to_data (init 8 8)
         (corrupt fs 0 2 5 1 (if 128 \<le> get_channel 1 (fs ! 0 ! 2 ! 5) then 0 else 255))
        = Inl (ValueError ''Data corruption detected - checksum mismatch'')"
    using t [of 2 5 1] by simp
  have c: "decode_pixels_to_data (init 8 8)
         (corrupt fs 0 4 4 0 (if 128 \<le> get_channel 0 (fs ! 0 ! 4 ! 4) then 0 else 255))
        = Inl (ValueError ''Data corruption detected - checksum mismatch'')"
    using t [of 4 4 0] by simp
  have d: "decode_pixels_to_data (init 8 8)
         (corrupt fs 0 7 7 2 (if 128 \<le> get_channel 2 (fs ! 0 ! 7 ! 7) then 0 else 255))
        = Inr [104, 105]"
    using t [of 7 7 2] by simp
  from h1 h2 fs n a b c d show ?thesis by blast
qed

theorem single_channel_corruption_counterexample:
  "(case encode_data_to_pixels (init 8 8) [104, 105] of
      Inl e \<Rightarrow> False
    | Inr fs \<Rightarrow>
        threshold 255 \<noteq> threshold (get_channel 2 (fs ! 0 ! 7 ! 7)) \<and>
        decode_pixels_to_data (init 8 8) (corrupt fs 0 7 7 2 255) = Inr [104, 105]) \<and>
   (case encode_data_to_pixels (init 8 8) [0x9d, 0x0a, 0xd9, 0x6d] of
      Inl e \<Rightarrow> False
    | Inr fs \<Rightarrow>
        threshold 0 \<noteq> threshold (get_channel 1 (fs ! 0 ! 2 ! 4)) \<and>
        decode_pixels_to_data (init 8 8) (corrupt fs 0 2 4 1 0) = Inr [] \<and>
        [] \<noteq> [0x9d, 0x0a, 0xd9, 0x6d :: byte])"
proof -
  from roundtrip_any_capacity [of 8 8 "[104, 105]"] obtain fs where
    fs: "encode_data_to_pixels (init 8 8) [104, 105] = Inr fs" by auto
  from roundtrip_any_capacity [of 8 8 "[0x9d, 0x0a, 0xd9, 0x6d]"] obtain gs where
    gs: "encode_data_to_pixels (init 8 8) [0x9d, 0x0a, 0xd9, 0x6d] = Inr gs" by auto
  note a = padding_flip_example [OF fs]
  note b = length_flip_example [OF gs]
  from a b show ?thesis by (simp add: fs gs)
qed

subsection \<open>The 32-bit length field\<close>

text \<open>
  The bound on the payload length in the theorems above is the one of the data model: the
  length field has 32 bits.  From \<open>2\<^sup>3\<^sup>2\<close> bytes on, \<^verbatim>\<open>format(length, '032b')\<close> has more than 32
  digits, and the header is longer than 96 bits.
\<close>

lemma length_bin_lower: "2 ^ k \<le> n \<Longrightarrow> k < length (bin n)"
proof (induction n arbitrary: k rule: bin.induct)
  case (1 n)
  show ?case
  proof (cases "n < 2")
    case True
    have "k = 0"
    proof (cases k)
      case (Suc j)
      from 1(2) Suc have "2 * 2 ^ j \<le> n" by simp
      moreover have "(0::nat) < 2 ^ j" by simp
      ultimately have False using True by linarith
      thus ?thesis ..
    qed simp
    with True show ?thesis by (subst bin.simps) simp
  next
    case False
    show ?thesis
    proof (cases k)
      case 0
      with False show ?thesis by (subst bin.simps) simp
    next
      case (Suc j)
      with 1(2) have "2 ^ j \<le> n div 2" by auto
      with 1(1) False have "j < length (bin (n div 2))" by simp
      with False Suc show ?thesis by (subst bin.simps) simp
    qed
  qed
qed

lemma length_field_overflow:
  "2 ^ 32 \<le> length p \<Longrightarrow> 32 < length (format_0b 32 (length p))"
  using length_bin_lower [of 32 "length p"] by (simp add: format_0b_def)

end
